theory Spec2Isabelle
  imports Main "HOL-Library.Finite_Map"
begin

section \<open>Python values of the ontology index\<close>

text \<open>
  The three functions of \<^verbatim>\<open>app/onto_x.py\<close> (\<^verbatim>\<open>load_ontology\<close>,
  \<^verbatim>\<open>get_ancestors_with_depth\<close>, \<^verbatim>\<open>find_entity_id\<close>; the first two are the same in
  \<^verbatim>\<open>onto_x.py\<close>) work on Python strings,
  dicts, a set and a deque. A dict is a finite map (\<open>fmap\<close>), the set of visited ids a
  \<open>set\<close>, the deque a list whose head is its left end. An exception is a value
  \<open>Inl e\<close>; a depth is a counter that starts at 0 and is only ever incremented, so it
  is a \<open>nat\<close>.
\<close>

datatype py_error = KeyError | AttributeError

text \<open>\<^verbatim>\<open>d[k]\<close>: raises \<^verbatim>\<open>KeyError\<close> when the key is absent.\<close>

definition dict_getitem :: "('k, 'v) fmap \<Rightarrow> 'k \<Rightarrow> py_error + 'v" where
  "dict_getitem d k = (case fmlookup d k of None \<Rightarrow> Inl KeyError | Some v \<Rightarrow> Inr v)"

text \<open>\<^verbatim>\<open>d.get(k, default)\<close>: never raises.\<close>

definition dict_get :: "('k, 'v) fmap \<Rightarrow> 'k \<Rightarrow> 'v \<Rightarrow> 'v" where
  "dict_get d k dflt = (case fmlookup d k of None \<Rightarrow> dflt | Some v \<Rightarrow> v)"

text \<open>\<^verbatim>\<open>k in d\<close>.\<close>

definition dict_contains :: "('k, 'v) fmap \<Rightarrow> 'k \<Rightarrow> bool" where
  "dict_contains d k = (fmlookup d k \<noteq> None)"

subsection \<open>Strings\<close>

text \<open>
  A string is the list of its characters. \<^verbatim>\<open>str.split('|')\<close> cuts it at every \<open>|\<close>.
  \<^verbatim>\<open>str.strip()\<close> and \<^verbatim>\<open>str.lower()\<close> are built into Python and work from the Unicode
  tables of the interpreter; they are no code of this repository. The loader and the
  resolver take them as the parameters \<open>strip\<close> and \<open>lower\<close>, so that what is proved of the
  two functions holds whatever \<^verbatim>\<open>str.strip()\<close> and \<^verbatim>\<open>str.lower()\<close> compute.
\<close>

fun split_from :: "char \<Rightarrow> string \<Rightarrow> string \<Rightarrow> string list" where
  "split_from sep tok [] = [rev tok]"
| "split_from sep tok (ch # rest) =
     (if ch = sep then rev tok # split_from sep [] rest else split_from sep (ch # tok) rest)"

definition py_split :: "char \<Rightarrow> string \<Rightarrow> string list" where
  "py_split sep s = split_from sep [] s"

text \<open>
  For the examples, \<^verbatim>\<open>str.strip()\<close> and \<^verbatim>\<open>str.lower()\<close> on the strings whose characters
  are code points below 256, a character being its code point: there \<^verbatim>\<open>str.isspace\<close>
  holds of 9 to 13, 28 to 32, 133 and 160, and \<^verbatim>\<open>str.lower()\<close> adds 32 to the capital
  letters, which are 65 to 90 and 192 to 222 without 215, and leaves every other character.
\<close>

definition latin1_space :: "char \<Rightarrow> bool" where
  "latin1_space ch =
     (let n = (of_char ch :: nat)
      in (9 \<le> n \<and> n \<le> 13) \<or> (28 \<le> n \<and> n \<le> 32) \<or> n = 133 \<or> n = 160)"

definition latin1_strip :: "string \<Rightarrow> string" where
  "latin1_strip s = rev (dropWhile latin1_space (rev (dropWhile latin1_space s)))"

definition latin1_lower_char :: "char \<Rightarrow> char" where
  "latin1_lower_char ch =
     (let n = (of_char ch :: nat)
      in if (65 \<le> n \<and> n \<le> 90) \<or> (192 \<le> n \<and> n \<le> 222 \<and> n \<noteq> 215)
         then char_of (n + 32) else ch)"

definition latin1_lower :: "string \<Rightarrow> string" where
  "latin1_lower s = map latin1_lower_char s"

section \<open>The loader\<close>

text \<open>
  \<^verbatim>\<open>csv.DictReader\<close> hands \<^verbatim>\<open>load_ontology\<close> one dict per record, keyed by the
  column names of the header. A column the header does not have is an absent key; a
  field a short record does not have is the value \<^verbatim>\<open>None\<close>; every other value is a
  string. The model starts from that list of dicts.
\<close>

type_synonym row = "(string, string option) fmap"

type_synonym id_to_label = "(string, string) fmap"
type_synonym label_to_id = "(string, string) fmap"
type_synonym graph = "(string, string list) fmap"

text \<open>\<^verbatim>\<open>row[col].strip()\<close>: \<^verbatim>\<open>None\<close> has no method \<^verbatim>\<open>strip\<close>.\<close>

definition field_strip :: "(string \<Rightarrow> string) \<Rightarrow> row \<Rightarrow> string \<Rightarrow> py_error + string" where
  "field_strip strip r col =
     (case dict_getitem r col of
        Inl e \<Rightarrow> Inl e
      | Inr None \<Rightarrow> Inl AttributeError
      | Inr (Some s) \<Rightarrow> Inr (strip s))"

text \<open>\<^verbatim>\<open>row['Parents'].strip() if row['Parents'] else ''\<close>: \<^verbatim>\<open>None\<close> and the empty
  string are both falsy.\<close>

definition parents_field :: "(string \<Rightarrow> string) \<Rightarrow> row \<Rightarrow> py_error + string" where
  "parents_field strip r =
     (case dict_getitem r ''Parents'' of
        Inl e \<Rightarrow> Inl e
      | Inr None \<Rightarrow> Inr []
      | Inr (Some s) \<Rightarrow> Inr (if s \<noteq> [] then strip s else []))"

text \<open>The body of the loop over the records. \<^verbatim>\<open>graph\<close> is a
  \<^verbatim>\<open>defaultdict(list)\<close>: \<^verbatim>\<open>graph[class_id].extend(parent_list)\<close> appends to the list
  the key has, or to a new empty list.\<close>

definition load_row :: "(string \<Rightarrow> string) \<Rightarrow> (string \<Rightarrow> string) \<Rightarrow> row \<Rightarrow>
    id_to_label \<times> label_to_id \<times> graph \<Rightarrow> py_error + (id_to_label \<times> label_to_id \<times> graph)" where
  "load_row strip lower r st =
     (case st of (id_to_label, label_to_id, graph) \<Rightarrow>
       (case field_strip strip r ''Class ID'' of
          Inl e \<Rightarrow> Inl e
        | Inr class_id \<Rightarrow>
           (case field_strip strip r ''Preferred Label'' of
              Inl e \<Rightarrow> Inl e
            | Inr label \<Rightarrow>
               (case parents_field strip r of
                  Inl e \<Rightarrow> Inl e
                | Inr parents \<Rightarrow>
                    Inr (fmupd class_id label id_to_label,
                         fmupd (lower label) class_id label_to_id,
                         (if parents \<noteq> []
                          then fmupd class_id
                                 (dict_get graph class_id [] @
                                    map strip (py_split CHR ''|'' parents)) graph
                          else fmupd class_id [] graph))))))"

fun load_rows :: "(string \<Rightarrow> string) \<Rightarrow> (string \<Rightarrow> string) \<Rightarrow> row list \<Rightarrow>
    id_to_label \<times> label_to_id \<times> graph \<Rightarrow> py_error + (id_to_label \<times> label_to_id \<times> graph)" where
  "load_rows strip lower [] st = Inr st"
| "load_rows strip lower (r # rs) st =
     (case load_row strip lower r st of
        Inl e \<Rightarrow> Inl e
      | Inr st' \<Rightarrow> load_rows strip lower rs st')"

definition load_ontology :: "(string \<Rightarrow> string) \<Rightarrow> (string \<Rightarrow> string) \<Rightarrow> row list \<Rightarrow>
    py_error + (id_to_label \<times> label_to_id \<times> graph)" where
  "load_ontology strip lower rows = load_rows strip lower rows (fmempty, fmempty, fmempty)"

section \<open>The resolver\<close>

text \<open>\<^verbatim>\<open>find_entity_id\<close> returns a class id or \<^verbatim>\<open>None\<close>.\<close>

definition find_entity_id :: "(string \<Rightarrow> string) \<Rightarrow> (string \<Rightarrow> string) \<Rightarrow> string \<Rightarrow>
    id_to_label \<Rightarrow> label_to_id \<Rightarrow> py_error + string option" where
  "find_entity_id strip lower query id_to_label label_to_id =
     (let query = strip query in
      if dict_contains id_to_label query then Inr (Some query)
      else let q_lower = lower query in
        if dict_contains label_to_id q_lower
        then (case dict_getitem label_to_id q_lower of Inl e \<Rightarrow> Inl e | Inr i \<Rightarrow> Inr (Some i))
        else Inr None)"

section \<open>The traversal\<close>

definition owl_Thing :: string where
  "owl_Thing = ''http://www.w3.org/2002/07/owl#Thing''"

record bfs_state =
  relationships :: "(string, nat) fmap"
  queue :: "(string \<times> nat) list"
  visited :: "string set"

text \<open>The body of \<^verbatim>\<open>for parent_id in graph.get(current_id, [])\<close>.\<close>

definition visit_parent :: "id_to_label \<Rightarrow> nat \<Rightarrow> string \<Rightarrow> bfs_state \<Rightarrow> py_error + bfs_state" where
  "visit_parent id_to_label current_depth parent_id s =
     (if parent_id = owl_Thing then Inr s
      else if parent_id \<notin> visited s then
        (let s1 = s\<lparr>visited := insert parent_id (visited s)\<rparr> in
         case (if dict_contains id_to_label parent_id
               then (case dict_getitem id_to_label parent_id of
                       Inl e \<Rightarrow> Inl e
                     | Inr label \<Rightarrow>
                         Inr (s1\<lparr>relationships := fmupd label (current_depth + 1) (relationships s1)\<rparr>))
               else Inr s1) of
           Inl e \<Rightarrow> Inl e
         | Inr s2 \<Rightarrow> Inr (s2\<lparr>queue := queue s2 @ [(parent_id, current_depth + 1)]\<rparr>))
      else Inr s)"

fun visit_parents :: "id_to_label \<Rightarrow> nat \<Rightarrow> string list \<Rightarrow> bfs_state \<Rightarrow> py_error + bfs_state" where
  "visit_parents id_to_label current_depth [] s = Inr s"
| "visit_parents id_to_label current_depth (parent_id # rest) s =
     (case visit_parent id_to_label current_depth parent_id s of
        Inl e \<Rightarrow> Inl e
      | Inr s' \<Rightarrow> visit_parents id_to_label current_depth rest s')"

text \<open>\<^verbatim>\<open>while queue:\<close> with its \<^verbatim>\<open>popleft\<close>. The loop is not structurally recursive
  and a priori need not end: \<open>None\<close> is the run that never returns.\<close>

partial_function (option) bfs_loop :: "graph \<Rightarrow> id_to_label \<Rightarrow> bfs_state \<Rightarrow> (py_error + bfs_state) option" where
  "bfs_loop graph id_to_label s =
     (case queue s of
        [] \<Rightarrow> Some (Inr s)
      | (current_id, current_depth) # rest \<Rightarrow>
          (case visit_parents id_to_label current_depth (dict_get graph current_id [])
                  (s\<lparr>queue := rest\<rparr>) of
             Inl e \<Rightarrow> Some (Inl e)
           | Inr s' \<Rightarrow> bfs_loop graph id_to_label s'))"

declare bfs_loop.simps [code]

definition bfs_init :: "string \<Rightarrow> bfs_state" where
  "bfs_init class_id = \<lparr>relationships = fmempty, queue = [(class_id, 0)], visited = {class_id}\<rparr>"

definition get_ancestors_with_depth ::
    "string \<Rightarrow> graph \<Rightarrow> id_to_label \<Rightarrow> (py_error + (string, nat) fmap) option" where
  "get_ancestors_with_depth class_id graph id_to_label =
     (case bfs_loop graph id_to_label (bfs_init class_id) of
        None \<Rightarrow> None
      | Some (Inl e) \<Rightarrow> Some (Inl e)
      | Some (Inr s) \<Rightarrow> Some (Inr (relationships s)))"

section \<open>Notions the properties are stated with\<close>

text \<open>\<open>edge_hops g c n\<close>: the ids reached from \<open>c\<close> by exactly \<open>n\<close> parent edges of the
  graph, whatever the ids on the way.\<close>

fun edge_hops :: "graph \<Rightarrow> string \<Rightarrow> nat \<Rightarrow> string set" where
  "edge_hops g c 0 = {c}"
| "edge_hops g c (Suc n) = (\<Union>x \<in> edge_hops g c n. set (dict_get g x []))"

text \<open>\<open>hops g c n\<close>: the same, along paths on which no parent is the sentinel.\<close>

fun hops :: "graph \<Rightarrow> string \<Rightarrow> nat \<Rightarrow> string set" where
  "hops g c 0 = {c}"
| "hops g c (Suc n) = (\<Union>x \<in> hops g c n. set (dict_get g x [])) - {owl_Thing}"

text \<open>\<open>d\<close> is the least number of hops from \<open>c\<close> to \<open>a\<close>.\<close>

definition min_hops :: "graph \<Rightarrow> string \<Rightarrow> string \<Rightarrow> nat \<Rightarrow> bool" where
  "min_hops g c a d = (a \<in> hops g c d \<and> (\<forall>d'. d' < d \<longrightarrow> a \<notin> hops g c d'))"

definition ancestors :: "graph \<Rightarrow> string \<Rightarrow> string set" where
  "ancestors g c = {a. a \<noteq> c \<and> (\<exists>n. a \<in> hops g c n)}"

text \<open>The states the loop of \<^verbatim>\<open>get_ancestors_with_depth\<close> goes through, one step per
  iteration of \<^verbatim>\<open>while queue:\<close>.\<close>

inductive bfs_reach :: "graph \<Rightarrow> id_to_label \<Rightarrow> string \<Rightarrow> bfs_state \<Rightarrow> bool"
  for g :: graph and i2l :: id_to_label and c :: string where
  start: "bfs_reach g i2l c (bfs_init c)"
| iterate: "bfs_reach g i2l c s \<Longrightarrow> queue s = (cur, d) # rest \<Longrightarrow>
      visit_parents i2l d (dict_get g cur []) (s\<lparr>queue := rest\<rparr>) = Inr s' \<Longrightarrow>
      bfs_reach g i2l c s'"

text \<open>What one run of the inner loop finds: the parents that are neither the sentinel nor
  visited, each once, in the order of the list.\<close>

fun newly_found :: "string set \<Rightarrow> string list \<Rightarrow> string list" where
  "newly_found V [] = []"
| "newly_found V (p # ps) =
     (if p = owl_Thing \<or> p \<in> V then newly_found V ps else p # newly_found (insert p V) ps)"

definition record_label :: "id_to_label \<Rightarrow> nat \<Rightarrow> string \<Rightarrow> (string, nat) fmap \<Rightarrow> (string, nat) fmap" where
  "record_label i2l d p rel =
     (case fmlookup i2l p of None \<Rightarrow> rel | Some l \<Rightarrow> fmupd l (Suc d) rel)"

text \<open>Every id a parent list of the graph names, and the order in which the loop ends.\<close>

definition graph_ids :: "graph \<Rightarrow> string set" where
  "graph_ids g = \<Union> (set ` fmran' g)"

definition bfs_rel :: "graph \<Rightarrow> (bfs_state \<times> bfs_state) set" where
  "bfs_rel g = inv_image (less_than <*lex*> less_than)
     (\<lambda>s. (card (graph_ids g - visited s), length (queue s)))"

text \<open>The invariant of the loop.\<close>

definition bfs_inv :: "graph \<Rightarrow> id_to_label \<Rightarrow> string \<Rightarrow> bfs_state \<Rightarrow> bool" where
  "bfs_inv g i2l c s =
     (c \<in> visited s \<and>
      (\<forall>x d. (x, d) \<in> set (queue s) \<longrightarrow> x \<in> visited s \<and> min_hops g c x d) \<and>
      sorted (map snd (queue s)) \<and>
      (\<forall>x d y e. (x, d) \<in> set (queue s) \<longrightarrow> (y, e) \<in> set (queue s) \<longrightarrow> e \<le> Suc d) \<and>
      (\<forall>x \<in> visited s. \<exists>d. min_hops g c x d) \<and>
      (\<forall>x \<in> visited s. x \<notin> fst ` set (queue s) \<longrightarrow>
          set (dict_get g x []) - {owl_Thing} \<subseteq> visited s) \<and>
      (\<forall>l d. fmlookup (relationships s) l = Some d \<longrightarrow>
          (\<exists>x \<in> visited s. x \<noteq> c \<and> fmlookup i2l x = Some l \<and> min_hops g c x d)) \<and>
      (\<forall>x \<in> visited s. x \<noteq> c \<longrightarrow>
          (\<forall>l. fmlookup i2l x = Some l \<longrightarrow> fmlookup (relationships s) l \<noteq> None)))"


section \<open>Example ontologies\<close>

text \<open>A cycle: \<open>A\<close> has parent \<open>B\<close>, \<open>B\<close> has parent \<open>A\<close>.\<close>

definition cycle_graph :: graph where
  "cycle_graph = fmap_of_list [(''A'', [''B'']), (''B'', [''A''])]"

definition cycle_labels :: id_to_label where
  "cycle_labels = fmap_of_list [(''A'', ''a''), (''B'', ''b'')]"

text \<open>The scenario of the specification with the sentinel in the place of \<open>ROOT\<close>, and a
  parent \<open>Z\<close> of the sentinel.\<close>

definition cervix_graph :: graph where
  "cervix_graph = fmap_of_list
     [(''X1'', []), (''X2'', [''X1'', owl_Thing]), (owl_Thing, [''Z''])]"

definition cervix_labels :: id_to_label where
  "cervix_labels = fmap_of_list
     [(''X1'', ''Disorder''), (''X2'', ''Cervix Disorder''), (owl_Thing, ''Thing''), (''Z'', ''Zed'')]"

text \<open>The diamond of the specification: \<open>A\<close> has parents \<open>B\<close> and \<open>C\<close>, both with
  parent \<open>D\<close>; every id is its own label.\<close>

definition diamond_graph :: graph where
  "diamond_graph = fmap_of_list [(''A'', [''B'', ''C'']), (''B'', [''D'']), (''C'', [''D''])]"

definition diamond_labels :: id_to_label where
  "diamond_labels = fmap_of_list [(''A'', ''A''), (''B'', ''B''), (''C'', ''C''), (''D'', ''D'')]"

text \<open>\<open>X\<close> is a parent of \<open>A\<close> and of \<open>A\<close>'s parent \<open>B\<close>, and shares its label with
  \<open>B\<close>'s other parent \<open>Y\<close>. \<open>Z\<close> is a parent of the sentinel, which \<open>A\<close> cites, and
  of \<open>Y\<close>.\<close>

definition detour_graph :: graph where
  "detour_graph = fmap_of_list
     [(''A'', [''X'', ''B'', owl_Thing]), (''B'', [''X'', ''Y'']), (owl_Thing, [''Z'']),
      (''Y'', [''Z''])]"

definition detour_labels :: id_to_label where
  "detour_labels = fmap_of_list [(''X'', ''x''), (''Y'', ''x''), (''Z'', ''z''), (''B'', ''b'')]"

text \<open>\<open>E\<close> has parents \<open>P\<close>, which has the label of \<open>E\<close>, and \<open>Q\<close>, whose label is the
  string \<open>E\<close>.\<close>

definition namesake_graph :: graph where
  "namesake_graph = fmap_of_list [(''E'', [''P'', ''Q''])]"

definition namesake_labels :: id_to_label where
  "namesake_labels = fmap_of_list [(''E'', ''x''), (''P'', ''x''), (''Q'', ''E'')]"





text \<open>Records as \<^verbatim>\<open>csv.DictReader\<close> yields them under the header
  \<^verbatim>\<open>Class ID,Preferred Label,Parents\<close>; a parents field of \<open>None\<close> is that of a record
  with two fields only.\<close>

definition csv_row :: "string \<Rightarrow> string \<Rightarrow> string option \<Rightarrow> row" where
  "csv_row class_id label parents =
     fmap_of_list [(''Class ID'', Some class_id), (''Preferred Label'', Some label),
                   (''Parents'', parents)]"

text \<open>The scenario of the specification.\<close>

definition cervix_rows :: "row list" where
  "cervix_rows =
     [csv_row ''X1'' ''Disorder'' (Some []),
      csv_row ''X2'' ''Cervix Disorder'' (Some ''X1|ROOT''),
      csv_row ''ROOT'' ''Thing'' (Some [])]"

text \<open>Two records with the same class id.\<close>

definition repeated_rows :: "row list" where
  "repeated_rows =
     [csv_row ''X'' ''x'' (Some ''P1''), csv_row ''X'' ''x'' (Some ''P2 | P3'')]"

text \<open>A record with parents and then a record without, for the same class id.\<close>

definition reset_rows :: "row list" where
  "reset_rows = [csv_row ''X'' ''x'' (Some ''P1''), csv_row ''X'' ''x'' (Some [])]"

text \<open>A record without its parents field, and a record without its label.\<close>

definition short_rows :: "row list" where
  "short_rows = [csv_row ''X1'' ''Disorder'' None]"

definition unlabeled_rows :: "row list" where
  "unlabeled_rows =
     [csv_row ''X1'' ''Disorder'' (Some []),
      fmap_of_list [(''Class ID'', Some ''X2''), (''Preferred Label'', None), (''Parents'', None)]]"

text \<open>An index in which the label of \<open>X2\<close> is the id of \<open>X1\<close>, and the label of
  \<open>X3\<close> ends in the letter of code point 233, whose capital is that of code point 201.\<close>

definition alias_id_to_label :: id_to_label where
  "alias_id_to_label =
     fmap_of_list [(''X1'', ''Disorder''), (''X2'', ''X1''), (''X3'', ''Caf'' @ [CHR 0xE9])]"

definition alias_label_to_id :: label_to_id where
  "alias_label_to_id =
     fmap_of_list [(''disorder'', ''X1''), (''x1'', ''X2''), (''caf'' @ [CHR 0xE9], ''X3'')]"

section \<open>The inner loop in closed form\<close>

lemma visit_parent_closed:
  "visit_parent i2l d p s =
     Inr (if p = owl_Thing \<or> p \<in> visited s then s
          else s\<lparr>relationships := record_label i2l d p (relationships s),
                 queue := queue s @ [(p, Suc d)],
                 visited := insert p (visited s)\<rparr>)"
  by (cases "fmlookup i2l p")
     (simp_all add: visit_parent_def dict_contains_def dict_getitem_def record_label_def)

lemma visit_parents_closed:
  "visit_parents i2l d ps s =
     Inr \<lparr>relationships = fold (record_label i2l d) (newly_found (visited s) ps) (relationships s),
          queue = queue s @ map (\<lambda>p. (p, Suc d)) (newly_found (visited s) ps),
          visited = visited s \<union> set (newly_found (visited s) ps)\<rparr>"
proof (induction ps arbitrary: s)
  case Nil
  show ?case by simp
next
  case (Cons p ps)
  show ?case
    by (simp add: visit_parent_closed Cons.IH)
qed

lemma set_newly_found: "set (newly_found V ps) = set ps - {owl_Thing} - V"
  by (induction ps arbitrary: V) auto

lemma distinct_newly_found: "distinct (newly_found V ps)"
  by (induction ps arbitrary: V) (auto simp: set_newly_found)

lemma lookup_fold_record:
  "fmlookup (fold (record_label i2l d) xs rel) l =
     (if \<exists>x \<in> set xs. fmlookup i2l x = Some l then Some (Suc d) else fmlookup rel l)"
  by (induction xs arbitrary: rel) (auto simp: record_label_def split: option.splits)

section \<open>The loop ends\<close>

lemma finite_graph_ids: "finite (graph_ids g)"
  by (simp add: graph_ids_def fmran'_alt_def)

lemma parents_in_graph_ids: "set (dict_get g x []) \<subseteq> graph_ids g"
proof (cases "fmlookup g x")
  case None
  then show ?thesis by (simp add: dict_get_def)
next
  case (Some ps)
  then have "ps \<in> fmran' g" by (rule fmran'I)
  then show ?thesis using Some by (auto simp: dict_get_def graph_ids_def)
qed

lemma wf_bfs_rel: "wf (bfs_rel g)"
  unfolding bfs_rel_def by (intro wf_inv_image wf_lex_prod wf_less_than)

lemma step_decreases:
  assumes "queue s = (cur, d) # rest"
    and "visit_parents i2l d (dict_get g cur []) (s\<lparr>queue := rest\<rparr>) = Inr s'"
  shows "(s', s) \<in> bfs_rel g"
proof -
  let ?N = "newly_found (visited s) (dict_get g cur [])"
  have vis: "visited s' = visited s \<union> set ?N" and q: "queue s' = rest @ map (\<lambda>p. (p, Suc d)) ?N"
    using assms(2) by (auto simp: visit_parents_closed)
  show ?thesis
  proof (cases "?N = []")
    case True
    then show ?thesis using vis q assms(1) by (simp add: bfs_rel_def)
  next
    case False
    then obtain p where p: "p \<in> set ?N" by (cases ?N) auto
    then have "p \<in> graph_ids g - visited s"
      using parents_in_graph_ids[of g cur] by (auto simp: set_newly_found)
    moreover have "p \<notin> graph_ids g - visited s'" using p vis by simp
    moreover have "graph_ids g - visited s' \<subseteq> graph_ids g - visited s" using vis by auto
    ultimately have "graph_ids g - visited s' \<subset> graph_ids g - visited s" by blast
    then have "card (graph_ids g - visited s') < card (graph_ids g - visited s)"
      by (intro psubset_card_mono) (simp_all add: finite_graph_ids)
    then show ?thesis by (simp add: bfs_rel_def)
  qed
qed

lemma bfs_loop_from_reach:
  "bfs_reach g i2l c s \<Longrightarrow>
     \<exists>s'. bfs_loop g i2l s = Some (Inr s') \<and> bfs_reach g i2l c s' \<and> queue s' = []"
proof (induction s rule: wf_induct_rule[OF wf_bfs_rel[of g]])
  case (1 s)
  show ?case
  proof (cases "queue s")
    case Nil
    then have "bfs_loop g i2l s = Some (Inr s)" by (subst bfs_loop.simps) simp
    with Nil "1.prems" show ?thesis by blast
  next
    case (Cons e rest)
    obtain cur d where e: "e = (cur, d)" by (cases e)
    obtain s1 where s1: "visit_parents i2l d (dict_get g cur []) (s\<lparr>queue := rest\<rparr>) = Inr s1"
      by (simp add: visit_parents_closed)
    have q: "queue s = (cur, d) # rest" using Cons e by simp
    have "(s1, s) \<in> bfs_rel g" using step_decreases[OF q s1] .
    moreover have "bfs_reach g i2l c s1" using bfs_reach.iterate[OF "1.prems" q s1] .
    ultimately obtain s' where s': "bfs_loop g i2l s1 = Some (Inr s')" "bfs_reach g i2l c s'" "queue s' = []"
      using "1.IH" by blast
    have "bfs_loop g i2l s = bfs_loop g i2l s1"
      by (subst bfs_loop.simps) (simp add: q s1)
    with s' show ?thesis by auto
  qed
qed

lemma bfs_loop_init:
  "\<exists>s'. bfs_loop g i2l (bfs_init c) = Some (Inr s') \<and> bfs_reach g i2l c s' \<and> queue s' = []"
  by (rule bfs_loop_from_reach[OF bfs_reach.start])


section \<open>Facts about hop counts\<close>

lemma hops_SucE:
  assumes "x \<in> hops g c (Suc n)"
  obtains y where "y \<in> hops g c n" "x \<in> set (dict_get g y [])" "x \<noteq> owl_Thing"
  using assms by auto

lemma hops_SucI:
  "y \<in> hops g c n \<Longrightarrow> x \<in> set (dict_get g y []) \<Longrightarrow> x \<noteq> owl_Thing \<Longrightarrow> x \<in> hops g c (Suc n)"
  by auto

lemma min_hops_unique: "min_hops g c a d \<Longrightarrow> min_hops g c a e \<Longrightarrow> d = e"
  unfolding min_hops_def by (meson linorder_neqE_nat)

lemma min_hops_exists:
  assumes "a \<in> hops g c n"
  shows "\<exists>d. d \<le> n \<and> min_hops g c a d"
proof -
  let ?d = "LEAST k. a \<in> hops g c k"
  have "a \<in> hops g c ?d" using assms by (rule LeastI)
  moreover have "?d \<le> n" using assms by (rule Least_le)
  moreover have "\<forall>d'. d' < ?d \<longrightarrow> a \<notin> hops g c d'" using not_less_Least by blast
  ultimately show ?thesis unfolding min_hops_def by blast
qed

lemma min_hops_start: "min_hops g c c 0"
  by (simp add: min_hops_def)

lemma min_hops_start_iff: "min_hops g c c d \<longleftrightarrow> d = 0"
  using min_hops_unique[OF min_hops_start] min_hops_start by blast

section \<open>The invariant holds in every state of the loop\<close>

lemma bfs_inv_start: "bfs_inv g i2l c (bfs_init c)"
  using min_hops_start[of g c] by (auto simp: bfs_inv_def bfs_init_def)

lemma bfs_inv_hops_visited:
  assumes inv: "bfs_inv g i2l c s"
    and low: "\<forall>x d. (x, d) \<in> set (queue s) \<longrightarrow> n \<le> d"
  shows "hops g c n \<subseteq> visited s"
  using low
proof (induction n)
  case 0
  then show ?case using inv by (simp add: bfs_inv_def)
next
  case (Suc m)
  then have IH: "hops g c m \<subseteq> visited s" by (meson Suc_leD)
  show ?case
  proof
    fix x assume "x \<in> hops g c (Suc m)"
    then obtain y where y: "y \<in> hops g c m" "x \<in> set (dict_get g y [])" "x \<noteq> owl_Thing"
      by (rule hops_SucE)
    have yv: "y \<in> visited s" using IH y(1) by blast
    have "y \<notin> fst ` set (queue s)"
    proof
      assume "y \<in> fst ` set (queue s)"
      then obtain k where k: "(y, k) \<in> set (queue s)" by auto
      then have "Suc m \<le> k" using Suc.prems by blast
      moreover have "min_hops g c y k" using inv k by (simp add: bfs_inv_def)
      ultimately show False using y(1) by (simp add: min_hops_def)
    qed
    with yv have "set (dict_get g y []) - {owl_Thing} \<subseteq> visited s"
      using inv by (simp add: bfs_inv_def)
    then show "x \<in> visited s" using y(2,3) by blast
  qed
qed

lemma bfs_inv_step:
  assumes inv: "bfs_inv g i2l c s"
    and q: "queue s = (cur, d) # rest"
    and step: "visit_parents i2l d (dict_get g cur []) (s\<lparr>queue := rest\<rparr>) = Inr s'"
  shows "bfs_inv g i2l c s'"
proof -
  let ?N = "newly_found (visited s) (dict_get g cur [])"
  have vis: "visited s' = visited s \<union> set ?N"
    and qu: "queue s' = rest @ map (\<lambda>p. (p, Suc d)) ?N"
    and rel: "relationships s' = fold (record_label i2l d) ?N (relationships s)"
    using step by (auto simp: visit_parents_closed)
  have N: "set ?N = set (dict_get g cur []) - {owl_Thing} - visited s"
    by (rule set_newly_found)
  have cv: "c \<in> visited s" using inv by (simp add: bfs_inv_def)
  have qmem: "\<And>x e. (x, e) \<in> set (queue s) \<Longrightarrow> x \<in> visited s \<and> min_hops g c x e"
    using inv by (simp add: bfs_inv_def)
  have cur: "cur \<in> visited s" "min_hops g c cur d" using qmem[of cur d] q by simp_all
  have srt: "sorted (map snd (queue s))" using inv by (simp add: bfs_inv_def)
  have rest_ge: "\<And>x e. (x, e) \<in> set rest \<Longrightarrow> d \<le> e"
    using srt q by auto
  have rest_le: "\<And>x e. (x, e) \<in> set rest \<Longrightarrow> e \<le> Suc d"
  proof -
    fix x e assume "(x, e) \<in> set rest"
    then have "(x, e) \<in> set (queue s)" "(cur, d) \<in> set (queue s)" using q by simp_all
    then show "e \<le> Suc d" using inv unfolding bfs_inv_def by blast
  qed
  have all_ge: "\<forall>x e. (x, e) \<in> set (queue s) \<longrightarrow> d \<le> e"
    using rest_ge q by auto
  have upto_d: "\<And>n. n \<le> d \<Longrightarrow> hops g c n \<subseteq> visited s"
  proof -
    fix n assume "n \<le> d"
    then have "\<forall>x e. (x, e) \<in> set (queue s) \<longrightarrow> n \<le> e" using all_ge by (meson le_trans)
    then show "hops g c n \<subseteq> visited s" by (rule bfs_inv_hops_visited[OF inv])
  qed
  have new_min: "\<And>p. p \<in> set ?N \<Longrightarrow> min_hops g c p (Suc d)"
  proof -
    fix p assume p: "p \<in> set ?N"
    then have pp: "p \<in> set (dict_get g cur [])" "p \<noteq> owl_Thing" "p \<notin> visited s"
      using N by auto
    have "cur \<in> hops g c d" using cur(2) by (simp add: min_hops_def)
    then have "p \<in> hops g c (Suc d)" using pp(1,2) by (rule hops_SucI)
    moreover have "\<forall>d'. d' < Suc d \<longrightarrow> p \<notin> hops g c d'"
    proof (intro allI impI)
      fix d' assume "d' < Suc d"
      then have "hops g c d' \<subseteq> visited s" using upto_d[of d'] by simp
      then show "p \<notin> hops g c d'" using pp(3) by blast
    qed
    ultimately show "min_hops g c p (Suc d)" by (simp add: min_hops_def)
  qed
  have new_not_c: "\<And>p. p \<in> set ?N \<Longrightarrow> p \<noteq> c" using N cv by auto

  have I1: "c \<in> visited s'" using cv vis by simp
  have I2: "\<forall>x e. (x, e) \<in> set (queue s') \<longrightarrow> x \<in> visited s' \<and> min_hops g c x e"
  proof (intro allI impI)
    fix x e assume "(x, e) \<in> set (queue s')"
    then consider "(x, e) \<in> set rest" | "x \<in> set ?N" "e = Suc d" using qu by auto
    then show "x \<in> visited s' \<and> min_hops g c x e"
    proof cases
      case 1
      then have "(x, e) \<in> set (queue s)" using q by simp
      then show ?thesis using qmem vis by blast
    next
      case 2
      then show ?thesis using new_min vis by simp
    qed
  qed
  have I3: "sorted (map snd (queue s'))"
  proof -
    have "sorted (map snd rest)" using srt q by simp
    moreover have "sorted (map snd (map (\<lambda>p. (p, Suc d)) ?N))"
      by (simp add: comp_def sorted_wrt_iff_nth_less)
    moreover have "\<forall>a \<in> set (map snd rest). \<forall>b \<in> set (map snd (map (\<lambda>p. (p, Suc d)) ?N)). a \<le> b"
      using rest_le by auto
    ultimately show ?thesis unfolding qu map_append sorted_append by blast
  qed
  have q'_bounds: "\<And>x e. (x, e) \<in> set (queue s') \<Longrightarrow> d \<le> e \<and> e \<le> Suc d"
    using qu rest_ge rest_le by auto
  have I4: "\<forall>x e y f. (x, e) \<in> set (queue s') \<longrightarrow> (y, f) \<in> set (queue s') \<longrightarrow> f \<le> Suc e"
  proof (intro allI impI)
    fix x e y f assume "(x, e) \<in> set (queue s')" "(y, f) \<in> set (queue s')"
    then have "d \<le> e" "f \<le> Suc d" using q'_bounds by blast+
    then show "f \<le> Suc e" by simp
  qed
  have I5: "\<forall>x \<in> visited s'. \<exists>k. min_hops g c x k"
  proof
    fix x assume "x \<in> visited s'"
    then consider "x \<in> visited s" | "x \<in> set ?N" using vis by auto
    then show "\<exists>k. min_hops g c x k"
    proof cases
      case 1 then show ?thesis using inv by (simp add: bfs_inv_def)
    next
      case 2 then show ?thesis using new_min by blast
    qed
  qed
  have I6: "\<forall>x \<in> visited s'. x \<notin> fst ` set (queue s') \<longrightarrow>
              set (dict_get g x []) - {owl_Thing} \<subseteq> visited s'"
  proof (intro ballI impI)
    fix x assume xv: "x \<in> visited s'" and xq: "x \<notin> fst ` set (queue s')"
    have "x \<notin> set ?N" using xq qu by force
    then have xs: "x \<in> visited s" using xv vis by simp
    have xr: "x \<notin> fst ` set rest" using xq qu by force
    show "set (dict_get g x []) - {owl_Thing} \<subseteq> visited s'"
    proof (cases "x = cur")
      case True
      then show ?thesis using N vis by auto
    next
      case False
      then have "x \<notin> fst ` set (queue s)" using xr q by auto
      then have "set (dict_get g x []) - {owl_Thing} \<subseteq> visited s"
        using inv xs by (simp add: bfs_inv_def)
      then show ?thesis using vis by auto
    qed
  qed
  have I7: "\<forall>l k. fmlookup (relationships s') l = Some k \<longrightarrow>
              (\<exists>x \<in> visited s'. x \<noteq> c \<and> fmlookup i2l x = Some l \<and> min_hops g c x k)"
  proof (intro allI impI)
    fix l k assume lk: "fmlookup (relationships s') l = Some k"
    show "\<exists>x \<in> visited s'. x \<noteq> c \<and> fmlookup i2l x = Some l \<and> min_hops g c x k"
    proof (cases "\<exists>x \<in> set ?N. fmlookup i2l x = Some l")
      case True
      then obtain x where x: "x \<in> set ?N" "fmlookup i2l x = Some l" by blast
      have "k = Suc d" using lk True by (simp add: rel lookup_fold_record)
      then show ?thesis using x new_min[OF x(1)] new_not_c[OF x(1)] vis by auto
    next
      case False
      then have "fmlookup (relationships s) l = Some k" using lk by (simp add: rel lookup_fold_record)
      then obtain x where "x \<in> visited s" "x \<noteq> c" "fmlookup i2l x = Some l" "min_hops g c x k"
        using inv unfolding bfs_inv_def by blast
      then show ?thesis using vis by auto
    qed
  qed
  have I8: "\<forall>x \<in> visited s'. x \<noteq> c \<longrightarrow>
              (\<forall>l. fmlookup i2l x = Some l \<longrightarrow> fmlookup (relationships s') l \<noteq> None)"
  proof (intro ballI allI impI)
    fix x l assume x: "x \<in> visited s'" "x \<noteq> c" "fmlookup i2l x = Some l"
    show "fmlookup (relationships s') l \<noteq> None"
    proof (cases "\<exists>y \<in> set ?N. fmlookup i2l y = Some l")
      case True
      then show ?thesis by (simp add: rel lookup_fold_record)
    next
      case False
      then have "x \<notin> set ?N" using x(3) by blast
      then have "x \<in> visited s" using x(1) vis by simp
      then have "fmlookup (relationships s) l \<noteq> None"
        using inv x(2,3) unfolding bfs_inv_def by blast
      then show ?thesis using False by (simp add: rel lookup_fold_record)
    qed
  qed
  show ?thesis
    unfolding bfs_inv_def using I1 I2 I3 I4 I5 I6 I7 I8 by blast
qed

lemma bfs_reach_inv: "bfs_reach g i2l c s \<Longrightarrow> bfs_inv g i2l c s"
  by (induction rule: bfs_reach.induct) (auto intro: bfs_inv_start bfs_inv_step)


section \<open>What the traversal returns\<close>

lemma bfs_final_state:
  "\<exists>s. bfs_loop g i2l (bfs_init c) = Some (Inr s) \<and> queue s = [] \<and>
       bfs_reach g i2l c s \<and> visited s = insert c (ancestors g c)"
proof -
  obtain s where s: "bfs_loop g i2l (bfs_init c) = Some (Inr s)" "bfs_reach g i2l c s" "queue s = []"
    using bfs_loop_init by blast
  have inv: "bfs_inv g i2l c s" using s(2) by (rule bfs_reach_inv)
  have sub: "\<And>n. hops g c n \<subseteq> visited s"
    by (rule bfs_inv_hops_visited[OF inv]) (simp add: s(3))
  have "visited s = insert c (ancestors g c)"
  proof (intro set_eqI iffI)
    fix x assume "x \<in> visited s"
    then obtain d where "min_hops g c x d" using inv unfolding bfs_inv_def by blast
    then have "x \<in> hops g c d" by (simp add: min_hops_def)
    then show "x \<in> insert c (ancestors g c)" by (auto simp: ancestors_def)
  next
    fix x assume "x \<in> insert c (ancestors g c)"
    then consider "x = c" | n where "x \<in> hops g c n" by (auto simp: ancestors_def)
    then show "x \<in> visited s"
    proof cases
      case 1 then show ?thesis using inv by (simp add: bfs_inv_def)
    next
      case 2 then show ?thesis using sub by blast
    qed
  qed
  with s show ?thesis by blast
qed

lemma ancestors_result:
  "\<exists>r. get_ancestors_with_depth c g i2l = Some (Inr r) \<and>
       (\<forall>l d. fmlookup r l = Some d \<longrightarrow>
          (\<exists>a \<in> ancestors g c. fmlookup i2l a = Some l \<and> min_hops g c a d)) \<and>
       (\<forall>a \<in> ancestors g c. \<forall>l. fmlookup i2l a = Some l \<longrightarrow> fmlookup r l \<noteq> None)"
proof -
  obtain s where s: "bfs_loop g i2l (bfs_init c) = Some (Inr s)" "bfs_reach g i2l c s"
      "visited s = insert c (ancestors g c)"
    using bfs_final_state by blast
  have inv: "bfs_inv g i2l c s" using s(2) by (rule bfs_reach_inv)
  have r: "get_ancestors_with_depth c g i2l = Some (Inr (relationships s))"
    by (simp add: get_ancestors_with_depth_def s(1))
  have a: "\<forall>l d. fmlookup (relationships s) l = Some d \<longrightarrow>
          (\<exists>a \<in> ancestors g c. fmlookup i2l a = Some l \<and> min_hops g c a d)"
  proof (intro allI impI)
    fix l d assume "fmlookup (relationships s) l = Some d"
    then obtain x where "x \<in> visited s" "x \<noteq> c" "fmlookup i2l x = Some l" "min_hops g c x d"
      using inv unfolding bfs_inv_def by blast
    then show "\<exists>a \<in> ancestors g c. fmlookup i2l a = Some l \<and> min_hops g c a d"
      using s(3) by auto
  qed
  have b: "\<forall>a \<in> ancestors g c. \<forall>l. fmlookup i2l a = Some l \<longrightarrow> fmlookup (relationships s) l \<noteq> None"
  proof (intro ballI allI impI)
    fix a l assume "a \<in> ancestors g c" "fmlookup i2l a = Some l"
    moreover from this have "a \<in> visited s" "a \<noteq> c" using s(3) by (auto simp: ancestors_def)
    ultimately show "fmlookup (relationships s) l \<noteq> None"
      using inv unfolding bfs_inv_def by blast
  qed
  show ?thesis using r a b by blast
qed

lemma ancestors_result_unique_label:
  assumes a: "min_hops g c a d" "a \<noteq> c" "fmlookup i2l a = Some l"
    and uniq: "\<forall>b \<in> ancestors g c. fmlookup i2l b = Some l \<longrightarrow> b = a"
  shows "\<exists>r. get_ancestors_with_depth c g i2l = Some (Inr r) \<and> fmlookup r l = Some d"
proof -
  obtain r where r: "get_ancestors_with_depth c g i2l = Some (Inr r)"
    and snd: "\<And>l d. fmlookup r l = Some d \<Longrightarrow>
          \<exists>a \<in> ancestors g c. fmlookup i2l a = Some l \<and> min_hops g c a d"
    and cpl: "\<And>a l. a \<in> ancestors g c \<Longrightarrow> fmlookup i2l a = Some l \<Longrightarrow> fmlookup r l \<noteq> None"
    using ancestors_result[of c g i2l] by blast
  have anc: "a \<in> ancestors g c" using a(1,2) by (auto simp: ancestors_def min_hops_def)
  then obtain e where e: "fmlookup r l = Some e" using cpl a(3) by blast
  then obtain b where b: "b \<in> ancestors g c" "fmlookup i2l b = Some l" "min_hops g c b e"
    using snd by blast
  then have "b = a" using uniq by blast
  then have "e = d" using b(3) a(1) min_hops_unique by blast
  with r e show ?thesis by blast
qed


section \<open>Simple facts about the states of the loop\<close>

lemma bfs_reach_queue_visited:
  "bfs_reach g i2l c s \<Longrightarrow> fst ` set (queue s) \<subseteq> visited s"
  using bfs_reach_inv[of g i2l c s] by (auto simp: bfs_inv_def)

lemma bfs_reach_sentinel_visited:
  "bfs_reach g i2l c s \<Longrightarrow> owl_Thing \<in> visited s \<Longrightarrow> c = owl_Thing"
proof (induction rule: bfs_reach.induct)
  case start
  then show ?case by (simp add: bfs_init_def)
next
  case (iterate s cur d rest s')
  then show ?case by (auto simp: visit_parents_closed set_newly_found)
qed

lemma bfs_reach_start_queued:
  "bfs_reach g i2l c s \<Longrightarrow> s = bfs_init c \<or> c \<notin> fst ` set (queue s)"
proof (induction rule: bfs_reach.induct)
  case start
  show ?case by simp
next
  case (iterate s cur d rest s')
  have cv: "c \<in> visited s" using bfs_reach_inv[OF iterate.hyps(1)] by (simp add: bfs_inv_def)
  have "c \<notin> fst ` set rest"
    using iterate.IH iterate.hyps(2) by (auto simp: bfs_init_def)
  moreover have "queue s' = rest @ map (\<lambda>p. (p, Suc d)) (newly_found (visited s) (dict_get g cur []))"
    using iterate.hyps(3) by (auto simp: visit_parents_closed)
  ultimately have "c \<notin> fst ` set (queue s')"
    using cv by (auto simp: set_newly_found)
  then show ?case by simp
qed

lemma visit_parents_skip_sentinel:
  "visit_parents i2l d ps s = visit_parents i2l d (filter (\<lambda>p. p \<noteq> owl_Thing) ps) s"
proof (induction ps arbitrary: s)
  case Nil
  show ?case by simp
next
  case (Cons p ps)
  show ?case
  proof (cases "p = owl_Thing")
    case True
    then show ?thesis using Cons.IH by (simp add: visit_parent_def)
  next
    case False
    then show ?thesis using Cons.IH by (simp split: sum.splits)
  qed
qed

lemma bfs_loop_sentinel_entry:
  assumes same: "\<forall>x. x \<noteq> owl_Thing \<longrightarrow> fmlookup g x = fmlookup g' x"
  shows "owl_Thing \<notin> fst ` set (queue s) \<Longrightarrow> bfs_loop g i2l s = bfs_loop g' i2l s"
proof (induction s rule: wf_induct_rule[OF wf_bfs_rel[of g]])
  case (1 s)
  show ?case
  proof (cases "queue s")
    case Nil
    then show ?thesis by (simp add: bfs_loop.simps[of _ _ s])
  next
    case (Cons e rest)
    obtain cur d where e: "e = (cur, d)" by (cases e)
    have q: "queue s = (cur, d) # rest" using Cons e by simp
    have cur: "cur \<noteq> owl_Thing" using "1.prems" q by auto
    then have ps: "dict_get g' cur [] = dict_get g cur []" using same by (simp add: dict_get_def)
    obtain s1 where s1: "visit_parents i2l d (dict_get g cur []) (s\<lparr>queue := rest\<rparr>) = Inr s1"
      by (simp add: visit_parents_closed)
    have "queue s1 = rest @ map (\<lambda>p. (p, Suc d)) (newly_found (visited s) (dict_get g cur []))"
      using s1 by (auto simp: visit_parents_closed)
    moreover have "owl_Thing \<notin> fst ` set rest" using "1.prems" q by auto
    ultimately have "owl_Thing \<notin> fst ` set (queue s1)" by (auto simp: set_newly_found)
    then have "bfs_loop g i2l s1 = bfs_loop g' i2l s1"
      using "1.IH" step_decreases[OF q s1] by blast
    moreover have "bfs_loop g i2l s = bfs_loop g i2l s1"
      by (subst bfs_loop.simps) (simp add: q s1)
    moreover have "bfs_loop g' i2l s = bfs_loop g' i2l s1"
      by (subst bfs_loop.simps) (simp add: q s1 ps)
    ultimately show ?thesis by simp
  qed
qed

lemma visit_parents_fresh:
  assumes "visit_parents i2l d ps s = Inr s'"
  shows "\<exists>new. queue s' = queue s @ new \<and> distinct (map fst new) \<and>
           fst ` set new \<inter> visited s = {} \<and> visited s' = visited s \<union> fst ` set new"
proof -
  let ?N = "newly_found (visited s) ps"
  let ?new = "map (\<lambda>p. (p, Suc d)) ?N"
  have "queue s' = queue s @ ?new" "visited s' = visited s \<union> set ?N"
    using assms by (auto simp: visit_parents_closed)
  moreover have "map fst ?new = ?N" by (simp add: comp_def)
  moreover have "fst ` set ?new = set ?N" by force
  ultimately have "queue s' = queue s @ ?new \<and> distinct (map fst ?new) \<and>
           fst ` set ?new \<inter> visited s = {} \<and> visited s' = visited s \<union> fst ` set ?new"
    using distinct_newly_found[of "visited s" ps] by (auto simp: set_newly_found)
  then show ?thesis by blast
qed

section \<open>The claims about the traversal\<close>

text \<open>
  C3. On every graph, cyclic or not, and from every starting id,
  \<^verbatim>\<open>get_ancestors_with_depth\<close> returns. In every iteration of the loop the ids it
  enqueues are distinct and were not visited before, they are visited from then on, and
  every id in the queue is visited: no id is enqueued twice.
\<close>

theorem traversal_terminates:
  "get_ancestors_with_depth c g i2l \<noteq> None \<and>
   (\<forall>s. bfs_reach g i2l c s \<longrightarrow> fst ` set (queue s) \<subseteq> visited s) \<and>
   (\<forall>s cur d rest s'. bfs_reach g i2l c s \<longrightarrow> queue s = (cur, d) # rest \<longrightarrow>
      visit_parents i2l d (dict_get g cur []) (s\<lparr>queue := rest\<rparr>) = Inr s' \<longrightarrow>
      (\<exists>new. queue s' = rest @ new \<and> distinct (map fst new) \<and>
         fst ` set new \<inter> visited s = {} \<and> visited s' = visited s \<union> fst ` set new))"
proof (intro conjI allI impI)
  show "get_ancestors_with_depth c g i2l \<noteq> None"
    using ancestors_result[of c g i2l] by auto
next
  fix s assume "bfs_reach g i2l c s"
  then show "fst ` set (queue s) \<subseteq> visited s" by (rule bfs_reach_queue_visited)
next
  fix s cur d rest s'
  assume "visit_parents i2l d (dict_get g cur []) (s\<lparr>queue := rest\<rparr>) = Inr s'"
  from visit_parents_fresh[OF this]
  show "\<exists>new. queue s' = rest @ new \<and> distinct (map fst new) \<and>
         fst ` set new \<inter> visited s = {} \<and> visited s' = visited s \<union> fst ` set new"
    by simp
qed

theorem traversal_terminates_witness:
  "get_ancestors_with_depth ''A'' cycle_graph cycle_labels = Some (Inr (fmap_of_list [(''b'', 1)])) \<and>
   bfs_reach cycle_graph cycle_labels ''A'' (bfs_init ''A'') \<and>
   queue (bfs_init ''A'') = [(''A'', 0)] \<and>
   visit_parents cycle_labels 0 (dict_get cycle_graph ''A'' []) ((bfs_init ''A'')\<lparr>queue := []\<rparr>) =
     Inr \<lparr>relationships = fmap_of_list [(''b'', 1)], queue = [(''B'', 1)], visited = {''A'', ''B''}\<rparr> \<and>
   (\<exists>new. [(''B'', 1::nat)] = [] @ new \<and> distinct (map fst new) \<and>
      fst ` set new \<inter> visited (bfs_init ''A'') = {} \<and>
      {''A'', ''B''} = visited (bfs_init ''A'') \<union> fst ` set new)"
proof -
  have r: "get_ancestors_with_depth ''A'' cycle_graph cycle_labels = Some (Inr (fmap_of_list [(''b'', 1)]))"
    by (simp add: get_ancestors_with_depth_def bfs_init_def bfs_loop.simps cycle_graph_def
        cycle_labels_def visit_parent_def dict_get_def dict_getitem_def dict_contains_def owl_Thing_def)
  have st: "bfs_reach cycle_graph cycle_labels ''A'' (bfs_init ''A'')" by (rule bfs_reach.start)
  have q: "queue (bfs_init ''A'') = [(''A'', 0)]" by (simp add: bfs_init_def)
  have v: "visit_parents cycle_labels 0 (dict_get cycle_graph ''A'' []) ((bfs_init ''A'')\<lparr>queue := []\<rparr>) =
     Inr \<lparr>relationships = fmap_of_list [(''b'', 1)], queue = [(''B'', 1)], visited = {''A'', ''B''}\<rparr>"
    by (auto simp: bfs_init_def cycle_graph_def
        cycle_labels_def visit_parent_def dict_get_def dict_getitem_def dict_contains_def owl_Thing_def)
  from traversal_terminates[of "''A''" cycle_graph cycle_labels] st q v
  have "\<exists>new. queue \<lparr>relationships = fmap_of_list [(''b'', 1)], queue = [(''B'', 1)], visited = {''A'', ''B''}\<rparr> = [] @ new \<and> distinct (map fst new) \<and>
         fst ` set new \<inter> visited (bfs_init ''A'') = {} \<and>
         visited \<lparr>relationships = fmap_of_list [(''b'', 1)], queue = [(''B'', 1)], visited = {''A'', ''B''}\<rparr> = visited (bfs_init ''A'') \<union> fst ` set new"
    by blast
  then have "\<exists>new. [(''B'', 1::nat)] = [] @ new \<and> distinct (map fst new) \<and>
      fst ` set new \<inter> visited (bfs_init ''A'') = {} \<and>
      {''A'', ''B''} = visited (bfs_init ''A'') \<union> fst ` set new"
    by simp
  with r st q v show ?thesis by blast
qed

text \<open>
  C9. \<^verbatim>\<open>get_ancestors_with_depth\<close> raises no exception, whatever the starting id, the
  graph and the labels: it returns a mapping. When the starting id has no entry in the
  graph, or an empty parent list, the mapping is empty.
\<close>

theorem traversal_never_fails:
  "(\<exists>r. get_ancestors_with_depth c g i2l = Some (Inr r)) \<and>
   (fmlookup g c = None \<or> fmlookup g c = Some [] \<longrightarrow>
      get_ancestors_with_depth c g i2l = Some (Inr fmempty))"
proof
  show "\<exists>r. get_ancestors_with_depth c g i2l = Some (Inr r)"
    using ancestors_result[of c g i2l] by blast
next
  show "fmlookup g c = None \<or> fmlookup g c = Some [] \<longrightarrow>
      get_ancestors_with_depth c g i2l = Some (Inr fmempty)"
  proof
    assume "fmlookup g c = None \<or> fmlookup g c = Some []"
    then have "dict_get g c [] = []" by (auto simp: dict_get_def)
    then show "get_ancestors_with_depth c g i2l = Some (Inr fmempty)"
      by (simp add: get_ancestors_with_depth_def bfs_init_def bfs_loop.simps)
  qed
qed

theorem traversal_never_fails_witness:
  "fmlookup cervix_graph ''X1'' = Some [] \<and>
   get_ancestors_with_depth ''X1'' cervix_graph cervix_labels = Some (Inr fmempty) \<and>
   fmlookup cervix_graph ''Z'' = None \<and>
   get_ancestors_with_depth ''Z'' cervix_graph cervix_labels = Some (Inr fmempty)"
proof -
  have a: "fmlookup cervix_graph ''X1'' = Some []" by (simp add: cervix_graph_def)
  have b: "fmlookup cervix_graph ''Z'' = None" by (simp add: cervix_graph_def owl_Thing_def)
  show ?thesis
    using a b traversal_never_fails[of "''X1''" cervix_graph cervix_labels]
      traversal_never_fails[of "''Z''" cervix_graph cervix_labels]
    by blast
qed


text \<open>
  C2. A parent id equal to the sentinel is skipped without any effect on the result, the
  queue or the visited set: the inner loop does the same on a parent list and on the list
  without its sentinel entries. So in every state of the loop the sentinel is visited only
  when it is the starting id itself, it is in the queue only as the initial entry of that
  starting id, and every key of the result is the label of a visited id that is neither
  the sentinel nor the starting id. Its parents are not traversed through it: from any other
  starting id the result does not depend on the graph's entry for the sentinel.
\<close>

theorem sentinel_skipped:
  "visit_parents i2l d ps s0 = visit_parents i2l d (filter (\<lambda>p. p \<noteq> owl_Thing) ps) s0 \<and>
   (\<forall>s. bfs_reach g i2l c s \<longrightarrow>
      (owl_Thing \<in> visited s \<longrightarrow> c = owl_Thing) \<and>
      (\<forall>k. (owl_Thing, k) \<in> set (queue s) \<longrightarrow> c = owl_Thing \<and> s = bfs_init c) \<and>
      (\<forall>l. fmlookup (relationships s) l \<noteq> None \<longrightarrow>
         (\<exists>a \<in> visited s. a \<noteq> owl_Thing \<and> a \<noteq> c \<and> fmlookup i2l a = Some l))) \<and>
   (c \<noteq> owl_Thing \<longrightarrow> (\<forall>x. x \<noteq> owl_Thing \<longrightarrow> fmlookup g x = fmlookup g' x) \<longrightarrow>
      get_ancestors_with_depth c g i2l = get_ancestors_with_depth c g' i2l)"
proof (intro conjI allI impI)
  show "visit_parents i2l d ps s0 = visit_parents i2l d (filter (\<lambda>p. p \<noteq> owl_Thing) ps) s0"
    by (rule visit_parents_skip_sentinel)
next
  fix s assume "bfs_reach g i2l c s" "owl_Thing \<in> visited s"
  then show "c = owl_Thing" by (rule bfs_reach_sentinel_visited)
next
  fix s k assume r: "bfs_reach g i2l c s" and k: "(owl_Thing, k) \<in> set (queue s)"
  then have "owl_Thing \<in> visited s" using bfs_reach_queue_visited[OF r] by force
  then show "c = owl_Thing" using r by (rule bfs_reach_sentinel_visited[rotated])
next
  fix s k assume r: "bfs_reach g i2l c s" and k: "(owl_Thing, k) \<in> set (queue s)"
  then have "owl_Thing \<in> visited s" using bfs_reach_queue_visited[OF r] by force
  then have "c = owl_Thing" using r by (rule bfs_reach_sentinel_visited[rotated])
  then have "c \<in> fst ` set (queue s)" using k by force
  then show "s = bfs_init c" using bfs_reach_start_queued[OF r] by blast
next
  fix s l assume r: "bfs_reach g i2l c s" and l: "fmlookup (relationships s) l \<noteq> None"
  then obtain k where "fmlookup (relationships s) l = Some k" by blast
  then obtain a where a: "a \<in> visited s" "a \<noteq> c" "fmlookup i2l a = Some l"
    using bfs_reach_inv[OF r] unfolding bfs_inv_def by blast
  have "a \<noteq> owl_Thing" using a(1,2) bfs_reach_sentinel_visited[OF r] by blast
  with a show "\<exists>a \<in> visited s. a \<noteq> owl_Thing \<and> a \<noteq> c \<and> fmlookup i2l a = Some l" by blast
next
  assume c: "c \<noteq> owl_Thing" and same: "\<forall>x. x \<noteq> owl_Thing \<longrightarrow> fmlookup g x = fmlookup g' x"
  have "owl_Thing \<notin> fst ` set (queue (bfs_init c))" using c by (simp add: bfs_init_def)
  then have "bfs_loop g i2l (bfs_init c) = bfs_loop g' i2l (bfs_init c)"
    by (rule bfs_loop_sentinel_entry[OF same])
  then show "get_ancestors_with_depth c g i2l = get_ancestors_with_depth c g' i2l"
    by (simp add: get_ancestors_with_depth_def)
qed


theorem sentinel_skipped_witness:
  "get_ancestors_with_depth ''X2'' cervix_graph cervix_labels =
     Some (Inr (fmap_of_list [(''Disorder'', 1)])) \<and>
   ''X2'' \<noteq> owl_Thing \<and>
   get_ancestors_with_depth ''X2'' (fmdrop owl_Thing cervix_graph) cervix_labels =
     get_ancestors_with_depth ''X2'' cervix_graph cervix_labels \<and>
   visit_parents cervix_labels 0 [''X1'', owl_Thing] ((bfs_init ''X2'')\<lparr>queue := []\<rparr>) =
     visit_parents cervix_labels 0 [''X1''] ((bfs_init ''X2'')\<lparr>queue := []\<rparr>) \<and>
   bfs_reach cervix_graph cervix_labels ''X2''
     \<lparr>relationships = fmap_of_list [(''Disorder'', 1)], queue = [(''X1'', 1)], visited = {''X1'', ''X2''}\<rparr> \<and>
   owl_Thing \<notin> {''X1'', ''X2''} \<and>
   (\<exists>a \<in> {''X1'', ''X2''}. a \<noteq> owl_Thing \<and> a \<noteq> ''X2'' \<and> fmlookup cervix_labels a = Some ''Disorder'')"
proof -
  let ?s1 = "\<lparr>relationships = fmap_of_list [(''Disorder'', 1)], queue = [(''X1'', 1)],
              visited = {''X1'', ''X2''}\<rparr>"
  note ev = get_ancestors_with_depth_def bfs_init_def bfs_loop.simps cervix_graph_def
        cervix_labels_def visit_parent_def dict_get_def dict_getitem_def dict_contains_def owl_Thing_def
  have r: "get_ancestors_with_depth ''X2'' cervix_graph cervix_labels =
     Some (Inr (fmap_of_list [(''Disorder'', 1)]))"
    by (simp add: ev)
  have ne: "''X2'' \<noteq> owl_Thing" by (simp add: owl_Thing_def)
  have same: "\<forall>x. x \<noteq> owl_Thing \<longrightarrow> fmlookup cervix_graph x = fmlookup (fmdrop owl_Thing cervix_graph) x"
    by simp
  have filt: "filter (\<lambda>p. p \<noteq> owl_Thing) [''X1'', owl_Thing] = [''X1'']"
    by (simp add: owl_Thing_def)
  have step: "visit_parents cervix_labels 0 (dict_get cervix_graph ''X2'' []) ((bfs_init ''X2'')\<lparr>queue := []\<rparr>) = Inr ?s1"
    by (simp add: ev)
  have reach: "bfs_reach cervix_graph cervix_labels ''X2'' ?s1"
    by (rule bfs_reach.iterate[OF bfs_reach.start _ step]) (simp add: bfs_init_def)
  have lab: "fmlookup (relationships ?s1) ''Disorder'' \<noteq> None" by simp
  note inst = sentinel_skipped[of cervix_labels 0 "[''X1'', owl_Thing]" "(bfs_init ''X2'')\<lparr>queue := []\<rparr>"
      cervix_graph "''X2''" "fmdrop owl_Thing cervix_graph"]
  note skip = inst[THEN conjunct1, unfolded filt]
  note at_s1 = inst[THEN conjunct2, THEN conjunct1, rule_format, OF reach]
  note indep = inst[THEN conjunct2, THEN conjunct2, rule_format, OF ne same[rule_format], symmetric]
  have nv: "owl_Thing \<notin> visited ?s1"
    using at_s1[THEN conjunct1] ne by blast
  have ex: "\<exists>a \<in> visited ?s1. a \<noteq> owl_Thing \<and> a \<noteq> ''X2'' \<and> fmlookup cervix_labels a = Some ''Disorder''"
    using at_s1[THEN conjunct2, THEN conjunct2, rule_format, OF lab] .
  have sel: "visited ?s1 = {''X1'', ''X2''}" by simp
  show ?thesis
    using r ne indep skip reach nv[unfolded sel] ex[unfolded sel] by (intro conjI)
qed


lemma edge_hops_SucI:
  "y \<in> edge_hops g c n \<Longrightarrow> x \<in> set (dict_get g y []) \<Longrightarrow> x \<in> edge_hops g c (Suc n)"
  by auto

text \<open>
  C1, as the code has it. Let \<open>a\<close> be an id other than the starting id \<open>c\<close>, let \<open>d\<close> be
  the least number of parent edges from \<open>c\<close> to \<open>a\<close> along paths on which no parent is
  the sentinel, and let \<open>a\<close> have a label that no other id reached from \<open>c\<close> has. Then
  \<^verbatim>\<open>get_ancestors_with_depth\<close> returns a mapping that gives that label the depth \<open>d\<close>.
\<close>

theorem first_discovery_depth:
  assumes "a \<in> hops g c d"
    and "\<forall>d'. d' < d \<longrightarrow> a \<notin> hops g c d'"
    and "a \<noteq> c"
    and "fmlookup i2l a = Some l"
    and "\<forall>b n. b \<in> hops g c n \<longrightarrow> b \<noteq> c \<longrightarrow> fmlookup i2l b = Some l \<longrightarrow> b = a"
  shows "\<exists>r. get_ancestors_with_depth c g i2l = Some (Inr r) \<and> fmlookup r l = Some d"
proof -
  have m: "min_hops g c a d" using assms(1,2) by (simp add: min_hops_def)
  have u: "\<forall>b \<in> ancestors g c. fmlookup i2l b = Some l \<longrightarrow> b = a"
    using assms(5) by (auto simp: ancestors_def)
  show ?thesis by (rule ancestors_result_unique_label[OF m assms(3,4) u])
qed

theorem first_discovery_depth_witness:
  "''D'' \<in> hops diamond_graph ''A'' 2 \<and>
   ''D'' \<notin> hops diamond_graph ''A'' 1 \<and>
   ''D'' \<notin> hops diamond_graph ''A'' 0 \<and>
   fmlookup diamond_labels ''D'' = Some ''D'' \<and>
   get_ancestors_with_depth ''A'' diamond_graph diamond_labels =
     Some (Inr (fmap_of_list [(''D'', 2), (''C'', 1), (''B'', 1)])) \<and>
   (\<exists>r. get_ancestors_with_depth ''A'' diamond_graph diamond_labels = Some (Inr r) \<and>
        fmlookup r ''D'' = Some 2)"
proof -
  note gr = diamond_graph_def dict_get_def owl_Thing_def
  have h2: "''D'' \<in> hops diamond_graph ''A'' 2" by (simp add: gr numeral_2_eq_2)
  have h1: "''D'' \<notin> hops diamond_graph ''A'' 1" by (simp add: gr)
  have h0: "''D'' \<notin> hops diamond_graph ''A'' 0" by simp
  have least: "\<forall>d'. d' < 2 \<longrightarrow> ''D'' \<notin> hops diamond_graph ''A'' d'"
  proof (intro allI impI)
    fix d' :: nat assume "d' < 2"
    then have "d' = 0 \<or> d' = 1" by auto
    then show "''D'' \<notin> hops diamond_graph ''A'' d'" by (auto simp: gr)
  qed
  have ne: "''D'' \<noteq> ''A''" by simp
  have lab: "fmlookup diamond_labels ''D'' = Some ''D''" by (simp add: diamond_labels_def)
  have uniq: "\<forall>b n. b \<in> hops diamond_graph ''A'' n \<longrightarrow> b \<noteq> ''A'' \<longrightarrow>
      fmlookup diamond_labels b = Some ''D'' \<longrightarrow> b = ''D''"
    by (simp add: diamond_labels_def)
  have ev: "get_ancestors_with_depth ''A'' diamond_graph diamond_labels =
     Some (Inr (fmap_of_list [(''D'', 2), (''C'', 1), (''B'', 1)]))"
    by (simp add: get_ancestors_with_depth_def bfs_init_def bfs_loop.simps visit_parent_def
        dict_get_def dict_getitem_def dict_contains_def owl_Thing_def
        diamond_graph_def diamond_labels_def numeral_2_eq_2)
  note res = first_discovery_depth[OF h2 least ne lab uniq]
  show ?thesis using h2 h1 h0 lab ev res by (intro conjI)
qed

text \<open>
  C1 as it is stated fails twice on one ontology. \<open>X\<close> is one and two parent edges from
  \<open>A\<close>, and the depth recorded for its label is 2, written when \<open>Y\<close>, which has the same
  label, is discovered. \<open>Z\<close> is two parent edges from \<open>A\<close> through the sentinel and three
  through \<open>B\<close> and \<open>Y\<close>, and the depth recorded for its label is 3. And on the cycle the
  starting id \<open>A\<close> is two parent edges from itself, and no depth is recorded for its
  label.
\<close>

theorem first_discovery_depth_counterexample:
  "get_ancestors_with_depth ''A'' detour_graph detour_labels =
     Some (Inr (fmap_of_list [(''z'', 3), (''x'', 2), (''b'', 1)])) \<and>
   fmlookup detour_labels ''X'' = Some ''x'' \<and>
   ''X'' \<notin> edge_hops detour_graph ''A'' 0 \<and>
   ''X'' \<in> edge_hops detour_graph ''A'' 1 \<and>
   ''X'' \<in> edge_hops detour_graph ''A'' 2 \<and>
   fmlookup (fmap_of_list [(''z'', 3), (''x'', 2), (''b'', 1::nat)]) ''x'' = Some 2 \<and>
   fmlookup detour_labels ''Z'' = Some ''z'' \<and>
   ''Z'' \<notin> edge_hops detour_graph ''A'' 0 \<and>
   ''Z'' \<notin> edge_hops detour_graph ''A'' 1 \<and>
   ''Z'' \<in> edge_hops detour_graph ''A'' 2 \<and>
   ''Z'' \<in> edge_hops detour_graph ''A'' 3 \<and>
   fmlookup (fmap_of_list [(''z'', 3), (''x'', 2), (''b'', 1::nat)]) ''z'' = Some 3 \<and>
   get_ancestors_with_depth ''A'' cycle_graph cycle_labels = Some (Inr (fmap_of_list [(''b'', 1)])) \<and>
   fmlookup cycle_labels ''A'' = Some ''a'' \<and>
   ''A'' \<notin> edge_hops cycle_graph ''A'' 1 \<and>
   ''A'' \<in> edge_hops cycle_graph ''A'' 2 \<and>
   fmlookup (fmap_of_list [(''b'', 1::nat)]) ''a'' = None"
proof -
  note gr = detour_graph_def dict_get_def owl_Thing_def
  have ev: "get_ancestors_with_depth ''A'' detour_graph detour_labels =
     Some (Inr (fmap_of_list [(''z'', 3), (''x'', 2), (''b'', 1)]))"
    by (simp add: get_ancestors_with_depth_def bfs_init_def bfs_loop.simps visit_parent_def
        dict_get_def dict_getitem_def dict_contains_def owl_Thing_def
        detour_graph_def detour_labels_def numeral_2_eq_2 numeral_3_eq_3)
       (rule fmap_ext, simp)
  have x: "fmlookup detour_labels ''X'' = Some ''x''" by (simp add: detour_labels_def)
  have a0: "''A'' \<in> edge_hops detour_graph ''A'' 0" by simp
  have b1: "''B'' \<in> edge_hops detour_graph ''A'' (Suc 0)"
    by (rule edge_hops_SucI[OF a0]) (simp add: gr)
  have t1: "owl_Thing \<in> edge_hops detour_graph ''A'' (Suc 0)"
    by (rule edge_hops_SucI[OF a0]) (simp add: gr)
  have y2: "''Y'' \<in> edge_hops detour_graph ''A'' (Suc (Suc 0))"
    by (rule edge_hops_SucI[OF b1]) (simp add: gr)
  have x0: "''X'' \<notin> edge_hops detour_graph ''A'' 0" by simp
  have x1: "''X'' \<in> edge_hops detour_graph ''A'' 1"
    unfolding One_nat_def by (rule edge_hops_SucI[OF a0]) (simp add: gr)
  have x2: "''X'' \<in> edge_hops detour_graph ''A'' 2"
    unfolding numeral_2_eq_2 by (rule edge_hops_SucI[OF b1]) (simp add: gr)
  have rx: "fmlookup (fmap_of_list [(''z'', 3), (''x'', 2), (''b'', 1::nat)]) ''x'' = Some 2" by simp
  have z: "fmlookup detour_labels ''Z'' = Some ''z''" by (simp add: detour_labels_def)
  have z0: "''Z'' \<notin> edge_hops detour_graph ''A'' 0" by simp
  have z1: "''Z'' \<notin> edge_hops detour_graph ''A'' 1" by (simp add: gr)
  have z2: "''Z'' \<in> edge_hops detour_graph ''A'' 2"
    unfolding numeral_2_eq_2 by (rule edge_hops_SucI[OF t1]) (simp add: gr)
  have z3: "''Z'' \<in> edge_hops detour_graph ''A'' 3"
    unfolding numeral_3_eq_3 by (rule edge_hops_SucI[OF y2]) (simp add: gr)
  have rz: "fmlookup (fmap_of_list [(''z'', 3), (''x'', 2), (''b'', 1::nat)]) ''z'' = Some 3" by simp
  have cev: "get_ancestors_with_depth ''A'' cycle_graph cycle_labels = Some (Inr (fmap_of_list [(''b'', 1)]))"
    by (simp add: get_ancestors_with_depth_def bfs_init_def bfs_loop.simps visit_parent_def
        dict_get_def dict_getitem_def dict_contains_def owl_Thing_def cycle_graph_def cycle_labels_def)
  have ca: "fmlookup cycle_labels ''A'' = Some ''a''" by (simp add: cycle_labels_def)
  have c1: "''A'' \<notin> edge_hops cycle_graph ''A'' 1" by (simp add: cycle_graph_def dict_get_def)
  have c2: "''A'' \<in> edge_hops cycle_graph ''A'' 2"
    by (simp add: cycle_graph_def dict_get_def numeral_2_eq_2)
  have cr: "fmlookup (fmap_of_list [(''b'', 1::nat)]) ''a'' = None" by simp
  show ?thesis using ev x x0 x1 x2 rx z z0 z1 z2 z3 rz cev ca c1 c2 cr by (intro conjI)
qed



text \<open>
  C4, as the code has it. The starting id is visited before the loop and never recorded:
  in every state of the loop it is visited, and it is in the queue only in the initial
  state. Every key of the result is the label of an ancestor other than the starting id,
  so the label of the starting id is a key only when another ancestor has the same label,
  also when the starting id is reachable from itself.
\<close>

theorem start_never_recorded:
  "(\<forall>s. bfs_reach g i2l c s \<longrightarrow> c \<in> visited s \<and> (s = bfs_init c \<or> c \<notin> fst ` set (queue s))) \<and>
   (\<exists>r. get_ancestors_with_depth c g i2l = Some (Inr r) \<and>
      (\<forall>l. fmlookup r l \<noteq> None \<longrightarrow>
         (\<exists>a. a \<noteq> c \<and> a \<in> ancestors g c \<and> fmlookup i2l a = Some l)) \<and>
      (\<forall>l. fmlookup i2l c = Some l \<longrightarrow>
         (\<forall>a. a \<in> ancestors g c \<longrightarrow> fmlookup i2l a \<noteq> Some l) \<longrightarrow> fmlookup r l = None))"
proof
  show "\<forall>s. bfs_reach g i2l c s \<longrightarrow> c \<in> visited s \<and> (s = bfs_init c \<or> c \<notin> fst ` set (queue s))"
  proof (intro allI impI conjI)
    fix s assume r: "bfs_reach g i2l c s"
    show "c \<in> visited s" using bfs_reach_inv[OF r] by (simp add: bfs_inv_def)
    show "s = bfs_init c \<or> c \<notin> fst ` set (queue s)" using r by (rule bfs_reach_start_queued)
  qed
next
  obtain r where r: "get_ancestors_with_depth c g i2l = Some (Inr r)"
    and snd: "\<And>l d. fmlookup r l = Some d \<Longrightarrow>
          \<exists>a \<in> ancestors g c. fmlookup i2l a = Some l \<and> min_hops g c a d"
    using ancestors_result[of c g i2l] by blast
  have keys: "\<forall>l. fmlookup r l \<noteq> None \<longrightarrow>
         (\<exists>a. a \<noteq> c \<and> a \<in> ancestors g c \<and> fmlookup i2l a = Some l)"
  proof (intro allI impI)
    fix l assume "fmlookup r l \<noteq> None"
    then obtain d where "fmlookup r l = Some d" by blast
    then obtain a where "a \<in> ancestors g c" "fmlookup i2l a = Some l" using snd by blast
    then show "\<exists>a. a \<noteq> c \<and> a \<in> ancestors g c \<and> fmlookup i2l a = Some l"
      by (auto simp: ancestors_def)
  qed
  have own: "\<forall>l. fmlookup i2l c = Some l \<longrightarrow>
         (\<forall>a. a \<in> ancestors g c \<longrightarrow> fmlookup i2l a \<noteq> Some l) \<longrightarrow> fmlookup r l = None"
    using keys by blast
  show "\<exists>r. get_ancestors_with_depth c g i2l = Some (Inr r) \<and>
      (\<forall>l. fmlookup r l \<noteq> None \<longrightarrow>
         (\<exists>a. a \<noteq> c \<and> a \<in> ancestors g c \<and> fmlookup i2l a = Some l)) \<and>
      (\<forall>l. fmlookup i2l c = Some l \<longrightarrow>
         (\<forall>a. a \<in> ancestors g c \<longrightarrow> fmlookup i2l a \<noteq> Some l) \<longrightarrow> fmlookup r l = None)"
    using r keys own by blast
qed

theorem start_never_recorded_witness:
  "''A'' \<in> hops cycle_graph ''A'' 2 \<and>
   fmlookup cycle_labels ''A'' = Some ''a'' \<and>
   get_ancestors_with_depth ''A'' cycle_graph cycle_labels = Some (Inr (fmap_of_list [(''b'', 1)])) \<and>
   fmlookup (fmap_of_list [(''b'', 1::nat)]) ''a'' = None \<and>
   bfs_reach cycle_graph cycle_labels ''A'' (bfs_init ''A'') \<and>
   ''A'' \<in> visited (bfs_init ''A'')"
proof -
  note gr = cycle_graph_def dict_get_def owl_Thing_def
  have cyc: "''A'' \<in> hops cycle_graph ''A'' 2" by (simp add: gr numeral_2_eq_2)
  have lab: "fmlookup cycle_labels ''A'' = Some ''a''" by (simp add: cycle_labels_def)
  have ev: "get_ancestors_with_depth ''A'' cycle_graph cycle_labels = Some (Inr (fmap_of_list [(''b'', 1)]))"
    by (simp add: get_ancestors_with_depth_def bfs_init_def bfs_loop.simps cycle_graph_def
        cycle_labels_def visit_parent_def dict_get_def dict_getitem_def dict_contains_def owl_Thing_def)
  have st: "bfs_reach cycle_graph cycle_labels ''A'' (bfs_init ''A'')" by (rule bfs_reach.start)
  have other: "\<forall>a. a \<in> ancestors cycle_graph ''A'' \<longrightarrow> fmlookup cycle_labels a \<noteq> Some ''a''"
    by (auto simp: ancestors_def cycle_labels_def)
  note inst = start_never_recorded[of cycle_graph cycle_labels "''A''"]
  have vis: "''A'' \<in> visited (bfs_init ''A'')"
    using inst[THEN conjunct1, rule_format, OF st] by blast
  obtain r where r: "get_ancestors_with_depth ''A'' cycle_graph cycle_labels = Some (Inr r)"
    and own: "\<forall>l. fmlookup cycle_labels ''A'' = Some l \<longrightarrow>
         (\<forall>a. a \<in> ancestors cycle_graph ''A'' \<longrightarrow> fmlookup cycle_labels a \<noteq> Some l) \<longrightarrow>
         fmlookup r l = None"
    using inst[THEN conjunct2] by blast
  have "fmlookup r ''a'' = None" using own lab other by blast
  moreover have "r = fmap_of_list [(''b'', 1)]" using r ev by simp
  ultimately have none: "fmlookup (fmap_of_list [(''b'', 1::nat)]) ''a'' = None" by simp
  show ?thesis using cyc lab ev none st vis by (intro conjI)
qed

text \<open>
  C4 as it is stated fails where an ancestor has the label of the starting id, or has the
  string of the starting id as its label: both are then keys of the result.
\<close>

theorem start_never_recorded_counterexample:
  "fmlookup namesake_labels ''E'' = Some ''x'' \<and>
   get_ancestors_with_depth ''E'' namesake_graph namesake_labels =
     Some (Inr (fmap_of_list [(''E'', 1), (''x'', 1)])) \<and>
   fmlookup (fmap_of_list [(''E'', 1::nat), (''x'', 1)]) ''x'' = Some 1 \<and>
   fmlookup (fmap_of_list [(''E'', 1::nat), (''x'', 1)]) ''E'' = Some 1"
proof -
  have lab: "fmlookup namesake_labels ''E'' = Some ''x''" by (simp add: namesake_labels_def)
  have ev: "get_ancestors_with_depth ''E'' namesake_graph namesake_labels =
     Some (Inr (fmap_of_list [(''E'', 1), (''x'', 1)]))"
    by (simp add: get_ancestors_with_depth_def bfs_init_def bfs_loop.simps namesake_graph_def
        namesake_labels_def visit_parent_def dict_get_def dict_getitem_def dict_contains_def owl_Thing_def)
  have kx: "fmlookup (fmap_of_list [(''E'', 1::nat), (''x'', 1)]) ''x'' = Some 1" by simp
  have ke: "fmlookup (fmap_of_list [(''E'', 1::nat), (''x'', 1)]) ''E'' = Some 1" by simp
  show ?thesis using lab ev kx ke by (intro conjI)
qed






section \<open>The loader, record by record\<close>

lemma load_row_Inr:
  "load_row strip lower r (i2l, l2i, g) = Inr st' \<longleftrightarrow>
     (\<exists>cid lab ps. field_strip strip r ''Class ID'' = Inr cid \<and>
        field_strip strip r ''Preferred Label'' = Inr lab \<and> parents_field strip r = Inr ps \<and>
        st' = (fmupd cid lab i2l, fmupd (lower lab) cid l2i,
               (if ps \<noteq> [] then fmupd cid (dict_get g cid [] @ map strip (py_split CHR ''|'' ps)) g
                else fmupd cid [] g)))"
  by (auto simp: load_row_def split: sum.splits)

lemma load_rows_append:
  "load_rows strip lower (xs @ ys) st =
     (case load_rows strip lower xs st of Inl e \<Rightarrow> Inl e | Inr st' \<Rightarrow> load_rows strip lower ys st')"
  by (induction xs arbitrary: st) (auto split: sum.splits)

lemma load_rows_other_ids:
  assumes "load_rows strip lower rs (i2l, l2i, g) = Inr (i2l', l2i', g')"
    and "\<forall>q \<in> set rs. field_strip strip q ''Class ID'' \<noteq> Inr cid"
  shows "fmlookup g' cid = fmlookup g cid"
  using assms
proof (induction rs arbitrary: i2l l2i g)
  case Nil
  then show ?case by simp
next
  case (Cons r rs)
  from Cons.prems(1) obtain st1 where st1: "load_row strip lower r (i2l, l2i, g) = Inr st1"
      and rest: "load_rows strip lower rs st1 = Inr (i2l', l2i', g')"
    by (auto split: sum.splits)
  obtain i1 l1 g1 where s: "st1 = (i1, l1, g1)" by (cases st1)
  from st1 obtain c where c: "field_strip strip r ''Class ID'' = Inr c"
      and g1: "\<forall>x. x \<noteq> c \<longrightarrow> fmlookup g1 x = fmlookup g x"
    unfolding s load_row_Inr by auto
  have "c \<noteq> cid" using c Cons.prems(2) by auto
  then have "fmlookup g1 cid = fmlookup g cid" using g1 by simp
  moreover have "fmlookup g' cid = fmlookup g1 cid"
    using Cons.IH[OF rest[unfolded s]] Cons.prems(2) by simp
  ultimately show ?case by simp
qed

lemma load_row_malformed:
  assumes "fmlookup r ''Class ID'' = None \<or> fmlookup r ''Class ID'' = Some None \<or>
      fmlookup r ''Preferred Label'' = None \<or> fmlookup r ''Preferred Label'' = Some None \<or>
      fmlookup r ''Parents'' = None"
  shows "\<exists>e. load_row strip lower r st = Inl e"
  using assms
  by (cases st)
     (auto simp: load_row_def field_strip_def parents_field_def dict_getitem_def
           split: sum.splits option.splits)

lemma load_rows_malformed:
  assumes "r \<in> set rows"
    and "fmlookup r ''Class ID'' = None \<or> fmlookup r ''Class ID'' = Some None \<or>
      fmlookup r ''Preferred Label'' = None \<or> fmlookup r ''Preferred Label'' = Some None \<or>
      fmlookup r ''Parents'' = None"
  shows "\<exists>e. load_rows strip lower rows st = Inl e"
  using assms(1)
proof (induction rows arbitrary: st)
  case Nil
  then show ?case by simp
next
  case (Cons q rows)
  show ?case
  proof (cases "load_row strip lower q st")
    case (Inl e)
    then show ?thesis by simp
  next
    case (Inr st1)
    have "q \<noteq> r" using Inr load_row_malformed[OF assms(2), of strip lower st] by auto
    then have "r \<in> set rows" using Cons.prems by simp
    then show ?thesis using Cons.IH Inr by simp
  qed
qed

lemma load_rows_ids_labelled:
  assumes "load_rows strip lower rs (i2l, l2i, g) = Inr (i2l', l2i', g')"
    and "\<forall>l i. fmlookup l2i l = Some i \<longrightarrow> fmlookup i2l i \<noteq> None"
  shows "\<forall>l i. fmlookup l2i' l = Some i \<longrightarrow> fmlookup i2l' i \<noteq> None"
  using assms
proof (induction rs arbitrary: i2l l2i g)
  case Nil
  then show ?case by simp
next
  case (Cons r rs)
  from Cons.prems(1) obtain st1 where st1: "load_row strip lower r (i2l, l2i, g) = Inr st1"
      and rest: "load_rows strip lower rs st1 = Inr (i2l', l2i', g')"
    by (auto split: sum.splits)
  obtain i1 l1 g1 where s: "st1 = (i1, l1, g1)" by (cases st1)
  from st1 obtain cid lab where i1: "i1 = fmupd cid lab i2l" and l1: "l1 = fmupd (lower lab) cid l2i"
    unfolding s load_row_Inr by auto
  have "\<forall>l i. fmlookup l1 l = Some i \<longrightarrow> fmlookup i1 i \<noteq> None"
    using Cons.prems(2) by (auto simp: i1 l1)
  then show ?case using Cons.IH[OF rest[unfolded s]] by blast
qed

text \<open>
  What the loader does with the parents of a record that loads, whatever \<open>strip\<close> is: a
  parents field that is not empty is split on \<open>|\<close>, each token is stripped, and the
  tokens are appended to the list the graph has for the id, or to the empty list when it
  has none; for an empty parents field the graph's list for the id is the empty list. No
  other id's list changes. So for an id that occurs in one record only, the graph's list
  after the load is the token list of that record.
\<close>

lemma graph_entry_of_record:
  "(load_row strip lower r (i2l0, l2i0, g0) = Inr (i2l1, l2i1, g1) \<longrightarrow>
      (\<exists>cid ps. field_strip strip r ''Class ID'' = Inr cid \<and> parents_field strip r = Inr ps \<and>
         fmlookup g1 cid =
           Some (if ps = [] then []
                 else dict_get g0 cid [] @ map strip (py_split CHR ''|'' ps)) \<and>
         (\<forall>x. x \<noteq> cid \<longrightarrow> fmlookup g1 x = fmlookup g0 x))) \<and>
   (load_ontology strip lower (pre @ r # post) = Inr (i2l, l2i, g) \<longrightarrow>
      field_strip strip r ''Class ID'' = Inr c \<longrightarrow> parents_field strip r = Inr p \<longrightarrow>
      (\<forall>q. q \<in> set pre \<union> set post \<longrightarrow> field_strip strip q ''Class ID'' \<noteq> Inr c) \<longrightarrow>
      fmlookup g c = Some (if p = [] then [] else map strip (py_split CHR ''|'' p)))"
proof (intro conjI impI)
  assume "load_row strip lower r (i2l0, l2i0, g0) = Inr (i2l1, l2i1, g1)"
  then show "\<exists>cid ps. field_strip strip r ''Class ID'' = Inr cid \<and> parents_field strip r = Inr ps \<and>
         fmlookup g1 cid =
           Some (if ps = [] then []
                 else dict_get g0 cid [] @ map strip (py_split CHR ''|'' ps)) \<and>
         (\<forall>x. x \<noteq> cid \<longrightarrow> fmlookup g1 x = fmlookup g0 x)"
    unfolding load_row_Inr by auto
next
  assume ld: "load_ontology strip lower (pre @ r # post) = Inr (i2l, l2i, g)"
    and c: "field_strip strip r ''Class ID'' = Inr c" and p: "parents_field strip r = Inr p"
    and others: "\<forall>q. q \<in> set pre \<union> set post \<longrightarrow> field_strip strip q ''Class ID'' \<noteq> Inr c"
  from ld obtain st1 where st1: "load_rows strip lower pre (fmempty, fmempty, fmempty) = Inr st1"
      and rest: "load_rows strip lower (r # post) st1 = Inr (i2l, l2i, g)"
    by (auto simp: load_ontology_def load_rows_append split: sum.splits)
  obtain ia la ga where s1: "st1 = (ia, la, ga)" by (cases st1)
  have "fmlookup ga c = fmlookup fmempty c"
    using load_rows_other_ids[OF st1[unfolded s1]] others by simp
  then have ga: "dict_get ga c [] = []" by (simp add: dict_get_def)
  from rest obtain st2 where st2: "load_row strip lower r st1 = Inr st2"
      and post: "load_rows strip lower post st2 = Inr (i2l, l2i, g)"
    by (auto split: sum.splits)
  obtain ib lb gb where s2: "st2 = (ib, lb, gb)" by (cases st2)
  have "fmlookup gb c = Some (if p = [] then [] else map strip (py_split CHR ''|'' p))"
    using st2 c p ga unfolding s1 s2 load_row_Inr by auto
  moreover have "fmlookup g c = fmlookup gb c"
    using load_rows_other_ids[OF post[unfolded s2]] others by simp
  ultimately show "fmlookup g c = Some (if p = [] then [] else map strip (py_split CHR ''|'' p))"
    by simp
qed

section \<open>The claims about the loader and the resolver\<close>

text \<open>
  C5 says that the graph's list for an id is the parent list of its record, not an
  accumulation across records. The code accumulates: of two records with the class id
  \<open>X\<close>, the first with the parent \<open>P1\<close> and the second with the parents \<open>P2\<close> and \<open>P3\<close>,
  the graph's list for \<open>X\<close> is \<open>P1\<close>, \<open>P2\<close>, \<open>P3\<close>, the token list of neither record. The
  other branch of the same loop does assign: a second record without parents leaves the
  empty list for \<open>X\<close>.
\<close>

theorem repeated_id_accumulates:
  "repeated_rows = [csv_row ''X'' ''x'' (Some ''P1''), csv_row ''X'' ''x'' (Some ''P2 | P3'')] \<and>
   map latin1_strip (py_split CHR ''|'' ''P1'') = [''P1''] \<and>
   map latin1_strip (py_split CHR ''|'' ''P2 | P3'') = [''P2'', ''P3''] \<and>
   load_ontology latin1_strip latin1_lower repeated_rows =
     Inr (fmap_of_list [(''X'', ''x'')], fmap_of_list [(''x'', ''X'')],
          fmap_of_list [(''X'', [''P1'', ''P2'', ''P3''])]) \<and>
   [''P1'', ''P2'', ''P3''] \<noteq> [''P2'', ''P3''] \<and>
   reset_rows = [csv_row ''X'' ''x'' (Some ''P1''), csv_row ''X'' ''x'' (Some [])] \<and>
   load_ontology latin1_strip latin1_lower reset_rows =
     Inr (fmap_of_list [(''X'', ''x'')], fmap_of_list [(''x'', ''X'')],
          fmap_of_list [(''X'', [])])"
proof -
  have rows: "repeated_rows = [csv_row ''X'' ''x'' (Some ''P1''), csv_row ''X'' ''x'' (Some ''P2 | P3'')]"
    by (simp add: repeated_rows_def)
  have t1: "map latin1_strip (py_split CHR ''|'' ''P1'') = [''P1'']" by code_simp
  have t2: "map latin1_strip (py_split CHR ''|'' ''P2 | P3'') = [''P2'', ''P3'']" by code_simp
  have ev: "load_ontology latin1_strip latin1_lower repeated_rows =
     Inr (fmap_of_list [(''X'', ''x'')], fmap_of_list [(''x'', ''X'')],
          fmap_of_list [(''X'', [''P1'', ''P2'', ''P3''])])"
    by code_simp
  have n1: "[''P1'', ''P2'', ''P3''] \<noteq> [''P2'', ''P3'']" by simp
  have rows2: "reset_rows = [csv_row ''X'' ''x'' (Some ''P1''), csv_row ''X'' ''x'' (Some [])]"
    by (simp add: reset_rows_def)
  have ev2: "load_ontology latin1_strip latin1_lower reset_rows =
     Inr (fmap_of_list [(''X'', ''x'')], fmap_of_list [(''x'', ''X'')],
          fmap_of_list [(''X'', [])])"
    by code_simp
  show ?thesis using rows t1 t2 ev n1 rows2 ev2 by (intro conjI)
qed

text \<open>
  C6, as the code has it. When the header lacks one of the three columns, or a record
  lacks its class identifier or its preferred label, the load raises an exception,
  wherever the record is among the others, and returns no index. A record that lacks only
  its parents field is loaded as a record without parents, alone or after other records.
\<close>

theorem malformed_record_fails_load:
  "(r \<in> set rows \<longrightarrow>
      (fmlookup r ''Class ID'' = None \<or> fmlookup r ''Class ID'' = Some None \<or>
       fmlookup r ''Preferred Label'' = None \<or> fmlookup r ''Preferred Label'' = Some None \<or>
       fmlookup r ''Parents'' = None) \<longrightarrow>
      (\<exists>e. load_ontology strip lower rows = Inl e)) \<and>
   (fmlookup q ''Class ID'' = Some (Some c) \<longrightarrow> fmlookup q ''Preferred Label'' = Some (Some l) \<longrightarrow>
      fmlookup q ''Parents'' = Some None \<longrightarrow>
      load_ontology strip lower [q] =
        Inr (fmupd (strip c) (strip l) fmempty,
             fmupd (lower (strip l)) (strip c) fmempty,
             fmupd (strip c) [] fmempty)) \<and>
   (fmlookup q ''Class ID'' = Some (Some c) \<longrightarrow> fmlookup q ''Preferred Label'' = Some (Some l) \<longrightarrow>
      fmlookup q ''Parents'' = Some None \<longrightarrow>
      load_row strip lower q (i2l, l2i, g) =
        Inr (fmupd (strip c) (strip l) i2l,
             fmupd (lower (strip l)) (strip c) l2i,
             fmupd (strip c) [] g))"
proof (intro conjI impI)
  assume "r \<in> set rows"
    and "fmlookup r ''Class ID'' = None \<or> fmlookup r ''Class ID'' = Some None \<or>
       fmlookup r ''Preferred Label'' = None \<or> fmlookup r ''Preferred Label'' = Some None \<or>
       fmlookup r ''Parents'' = None"
  then show "\<exists>e. load_ontology strip lower rows = Inl e"
    unfolding load_ontology_def by (rule load_rows_malformed)
next
  assume "fmlookup q ''Class ID'' = Some (Some c)" "fmlookup q ''Preferred Label'' = Some (Some l)"
    "fmlookup q ''Parents'' = Some None"
  then show "load_ontology strip lower [q] =
        Inr (fmupd (strip c) (strip l) fmempty,
             fmupd (lower (strip l)) (strip c) fmempty,
             fmupd (strip c) [] fmempty)"
    by (simp add: load_ontology_def load_row_def field_strip_def parents_field_def dict_getitem_def)
next
  assume "fmlookup q ''Class ID'' = Some (Some c)" "fmlookup q ''Preferred Label'' = Some (Some l)"
    "fmlookup q ''Parents'' = Some None"
  then show "load_row strip lower q (i2l, l2i, g) =
        Inr (fmupd (strip c) (strip l) i2l,
             fmupd (lower (strip l)) (strip c) l2i,
             fmupd (strip c) [] g)"
    by (simp add: load_row_def field_strip_def parents_field_def dict_getitem_def)
qed

theorem malformed_record_fails_load_witness:
  "fmap_of_list [(''Class ID'', Some ''X2''), (''Preferred Label'', None), (''Parents'', None)]
     \<in> set unlabeled_rows \<and>
   fmlookup (fmap_of_list [(''Class ID'', Some ''X2''), (''Preferred Label'', None), (''Parents'', None)])
     ''Preferred Label'' = Some None \<and>
   load_ontology latin1_strip latin1_lower unlabeled_rows = Inl AttributeError \<and>
   (\<exists>e. load_ontology latin1_strip latin1_lower unlabeled_rows = Inl e)"
proof -
  let ?r = "fmap_of_list [(''Class ID'', Some ''X2''), (''Preferred Label'', None), (''Parents'', None)] :: row"
  have m: "?r \<in> set unlabeled_rows" by (simp add: unlabeled_rows_def)
  have l: "fmlookup ?r ''Preferred Label'' = Some None" by simp
  have ev: "load_ontology latin1_strip latin1_lower unlabeled_rows = Inl AttributeError" by code_simp
  have "\<exists>e. load_ontology latin1_strip latin1_lower unlabeled_rows = Inl e"
    using malformed_record_fails_load[THEN conjunct1, rule_format, OF m] l by blast
  then show ?thesis using m l ev by (intro conjI)
qed

text \<open>
  C6 as it is stated fails on a record without its parents field: the load returns an
  index, in which the record's id has the empty parent list.
\<close>

theorem malformed_record_fails_load_counterexample:
  "short_rows = [csv_row ''X1'' ''Disorder'' None] \<and>
   fmlookup (csv_row ''X1'' ''Disorder'' None) ''Parents'' = Some None \<and>
   load_ontology latin1_strip latin1_lower short_rows =
     Inr (fmap_of_list [(''X1'', ''Disorder'')], fmap_of_list [(''disorder'', ''X1'')],
          fmap_of_list [(''X1'', [])])"
proof -
  have a: "short_rows = [csv_row ''X1'' ''Disorder'' None]" by (simp add: short_rows_def)
  have b: "fmlookup (csv_row ''X1'' ''Disorder'' None) ''Parents'' = Some None"
    by (simp add: csv_row_def)
  have c: "load_ontology latin1_strip latin1_lower short_rows =
     Inr (fmap_of_list [(''X1'', ''Disorder'')], fmap_of_list [(''disorder'', ''X1'')],
          fmap_of_list [(''X1'', [])])"
    by code_simp
  show ?thesis using a b c by (intro conjI)
qed


text \<open>
  C7. \<^verbatim>\<open>find_entity_id\<close> raises no exception. It strips the query; when the stripped
  query is a key of \<^verbatim>\<open>id_to_label\<close> it returns it as it is, whatever \<^verbatim>\<open>label_to_id\<close>
  holds; otherwise, when the lower-cased stripped query is a key of \<^verbatim>\<open>label_to_id\<close>, it
  returns the id stored there; otherwise it returns \<^verbatim>\<open>None\<close>. This holds whatever
  \<^verbatim>\<open>str.strip()\<close> and \<^verbatim>\<open>str.lower()\<close> compute.
\<close>

theorem find_entity_id_cases:
  "(\<exists>v. find_entity_id strip lower q i2l l2i = Inr v) \<and>
   (fmlookup i2l (strip q) \<noteq> None \<longrightarrow>
      find_entity_id strip lower q i2l l2i = Inr (Some (strip q))) \<and>
   (fmlookup i2l (strip q) = None \<longrightarrow> fmlookup l2i (lower (strip q)) = Some i \<longrightarrow>
      find_entity_id strip lower q i2l l2i = Inr (Some i)) \<and>
   (fmlookup i2l (strip q) = None \<longrightarrow> fmlookup l2i (lower (strip q)) = None \<longrightarrow>
      find_entity_id strip lower q i2l l2i = Inr None)"
  by (cases "fmlookup l2i (lower (strip q))")
     (auto simp: find_entity_id_def dict_contains_def dict_getitem_def Let_def)

theorem find_entity_id_cases_witness:
  "latin1_strip '' X1 '' = ''X1'' \<and>
   fmlookup alias_id_to_label ''X1'' \<noteq> None \<and>
   fmlookup alias_label_to_id (latin1_lower ''X1'') = Some ''X2'' \<and>
   find_entity_id latin1_strip latin1_lower '' X1 '' alias_id_to_label alias_label_to_id =
     Inr (Some ''X1'') \<and>
   latin1_strip ''x1'' = ''x1'' \<and>
   fmlookup alias_id_to_label ''x1'' = None \<and>
   find_entity_id latin1_strip latin1_lower ''x1'' alias_id_to_label alias_label_to_id =
     Inr (Some ''X2'') \<and>
   latin1_lower (latin1_strip ''DISORDER'') = ''disorder'' \<and>
   fmlookup alias_id_to_label (latin1_strip ''DISORDER'') = None \<and>
   find_entity_id latin1_strip latin1_lower ''DISORDER'' alias_id_to_label alias_label_to_id =
     Inr (Some ''X1'') \<and>
   fmlookup alias_id_to_label (latin1_strip ''nonexistent'') = None \<and>
   fmlookup alias_label_to_id (latin1_lower (latin1_strip ''nonexistent'')) = None \<and>
   find_entity_id latin1_strip latin1_lower ''nonexistent'' alias_id_to_label alias_label_to_id =
     Inr None \<and>
   latin1_strip (CHR 0xA0 # ''X1'' @ [CHR 0xA0]) = ''X1'' \<and>
   find_entity_id latin1_strip latin1_lower (CHR 0xA0 # ''X1'' @ [CHR 0xA0])
     alias_id_to_label alias_label_to_id = Inr (Some ''X1'') \<and>
   latin1_lower (latin1_strip (''CAF'' @ [CHR 0xC9])) = ''caf'' @ [CHR 0xE9] \<and>
   fmlookup alias_id_to_label (latin1_strip (''CAF'' @ [CHR 0xC9])) = None \<and>
   find_entity_id latin1_strip latin1_lower (''CAF'' @ [CHR 0xC9])
     alias_id_to_label alias_label_to_id = Inr (Some ''X3'')"
proof -
  note inst = find_entity_id_cases[of latin1_strip latin1_lower _ alias_id_to_label alias_label_to_id]
  have s1: "latin1_strip '' X1 '' = ''X1''" by code_simp
  have a1: "fmlookup alias_id_to_label ''X1'' \<noteq> None" by (simp add: alias_id_to_label_def)
  have a1': "fmlookup alias_id_to_label (latin1_strip '' X1 '') \<noteq> None" using a1 s1 by simp
  have b1: "fmlookup alias_label_to_id (latin1_lower ''X1'') = Some ''X2''" by code_simp
  have r1: "find_entity_id latin1_strip latin1_lower '' X1 '' alias_id_to_label alias_label_to_id =
      Inr (Some ''X1'')"
    using inst[of "'' X1 ''", THEN conjunct2, THEN conjunct1, rule_format, OF a1'] s1 by simp
  have s2: "latin1_strip ''x1'' = ''x1''" by code_simp
  have a2: "fmlookup alias_id_to_label ''x1'' = None" by (simp add: alias_id_to_label_def)
  have a2': "fmlookup alias_id_to_label (latin1_strip ''x1'') = None" using a2 s2 by simp
  have b2: "fmlookup alias_label_to_id (latin1_lower (latin1_strip ''x1'')) = Some ''X2''" by code_simp
  have r2: "find_entity_id latin1_strip latin1_lower ''x1'' alias_id_to_label alias_label_to_id =
      Inr (Some ''X2'')"
    using inst[of "''x1''", THEN conjunct2, THEN conjunct2, THEN conjunct1, rule_format, OF a2' b2] .
  have s3: "latin1_lower (latin1_strip ''DISORDER'') = ''disorder''" by code_simp
  have a3: "fmlookup alias_id_to_label (latin1_strip ''DISORDER'') = None" by code_simp
  have b3: "fmlookup alias_label_to_id (latin1_lower (latin1_strip ''DISORDER'')) = Some ''X1''"
    by code_simp
  have r3: "find_entity_id latin1_strip latin1_lower ''DISORDER'' alias_id_to_label alias_label_to_id =
      Inr (Some ''X1'')"
    using inst[of "''DISORDER''", THEN conjunct2, THEN conjunct2, THEN conjunct1, rule_format, OF a3 b3] .
  have a4: "fmlookup alias_id_to_label (latin1_strip ''nonexistent'') = None" by code_simp
  have b4: "fmlookup alias_label_to_id (latin1_lower (latin1_strip ''nonexistent'')) = None"
    by code_simp
  have r4: "find_entity_id latin1_strip latin1_lower ''nonexistent'' alias_id_to_label alias_label_to_id =
      Inr None"
    using inst[of "''nonexistent''", THEN conjunct2, THEN conjunct2, THEN conjunct2, rule_format, OF a4 b4] .
  have s5: "latin1_strip (CHR 0xA0 # ''X1'' @ [CHR 0xA0]) = ''X1''" by code_simp
  have a5: "fmlookup alias_id_to_label (latin1_strip (CHR 0xA0 # ''X1'' @ [CHR 0xA0])) \<noteq> None"
    using a1 s5 by simp
  have r5: "find_entity_id latin1_strip latin1_lower (CHR 0xA0 # ''X1'' @ [CHR 0xA0])
      alias_id_to_label alias_label_to_id = Inr (Some ''X1'')"
    using inst[of "CHR 0xA0 # ''X1'' @ [CHR 0xA0]", THEN conjunct2, THEN conjunct1, rule_format, OF a5] s5
    by simp
  have s6: "latin1_lower (latin1_strip (''CAF'' @ [CHR 0xC9])) = ''caf'' @ [CHR 0xE9]" by code_simp
  have a6: "fmlookup alias_id_to_label (latin1_strip (''CAF'' @ [CHR 0xC9])) = None" by code_simp
  have b6: "fmlookup alias_label_to_id (latin1_lower (latin1_strip (''CAF'' @ [CHR 0xC9]))) = Some ''X3''"
    by code_simp
  have r6: "find_entity_id latin1_strip latin1_lower (''CAF'' @ [CHR 0xC9])
      alias_id_to_label alias_label_to_id = Inr (Some ''X3'')"
    using inst[of "''CAF'' @ [CHR 0xC9]", THEN conjunct2, THEN conjunct2, THEN conjunct1, rule_format, OF a6 b6] .
  show ?thesis using s1 a1 b1 r1 s2 a2 r2 s3 a3 r3 a4 b4 r4 s5 r5 s6 a6 r6 by (intro conjI)
qed

text \<open>
  C10. After a load that returns, every id stored in \<^verbatim>\<open>label_to_id\<close> is a key of
  \<^verbatim>\<open>id_to_label\<close>, so every id that \<^verbatim>\<open>find_entity_id\<close> returns on the loaded maps has a
  label.
\<close>

theorem loaded_label_ids_have_labels:
  assumes "load_ontology strip lower rows = Inr (i2l, l2i, g)"
  shows "(\<forall>l i. fmlookup l2i l = Some i \<longrightarrow> fmlookup i2l i \<noteq> None) \<and>
         (\<forall>q i. find_entity_id strip lower q i2l l2i = Inr (Some i) \<longrightarrow> fmlookup i2l i \<noteq> None)"
proof
  show inv: "\<forall>l i. fmlookup l2i l = Some i \<longrightarrow> fmlookup i2l i \<noteq> None"
    by (rule load_rows_ids_labelled[OF assms[unfolded load_ontology_def]]) simp
  show "\<forall>q i. find_entity_id strip lower q i2l l2i = Inr (Some i) \<longrightarrow> fmlookup i2l i \<noteq> None"
  proof (intro allI impI)
    fix q i assume f: "find_entity_id strip lower q i2l l2i = Inr (Some i)"
    show "fmlookup i2l i \<noteq> None"
    proof (cases "fmlookup i2l (strip q) = None")
      case False
      then have "find_entity_id strip lower q i2l l2i = Inr (Some (strip q))"
        by (simp add: find_entity_id_def dict_contains_def Let_def)
      then show ?thesis using f False by simp
    next
      case True
      then have "fmlookup l2i (lower (strip q)) = Some i"
        using f by (auto simp: find_entity_id_def dict_contains_def dict_getitem_def Let_def
            split: if_splits option.splits)
      then show ?thesis using inv by blast
    qed
  qed
qed

theorem loaded_label_ids_have_labels_witness:
  "load_ontology latin1_strip latin1_lower cervix_rows =
     Inr (fmap_of_list [(''ROOT'', ''Thing''), (''X2'', ''Cervix Disorder''), (''X1'', ''Disorder'')],
          fmap_of_list [(''thing'', ''ROOT''), (''cervix disorder'', ''X2''), (''disorder'', ''X1'')],
          fmap_of_list [(''ROOT'', []), (''X2'', [''X1'', ''ROOT'']), (''X1'', [])]) \<and>
   find_entity_id latin1_strip latin1_lower ''Cervix Disorder''
     (fmap_of_list [(''ROOT'', ''Thing''), (''X2'', ''Cervix Disorder''), (''X1'', ''Disorder'')])
     (fmap_of_list [(''thing'', ''ROOT''), (''cervix disorder'', ''X2''), (''disorder'', ''X1'')]) =
     Inr (Some ''X2'') \<and>
   fmlookup (fmap_of_list [(''ROOT'', ''Thing''), (''X2'', ''Cervix Disorder''), (''X1'', ''Disorder'')])
     ''X2'' \<noteq> None"
proof -
  let ?i = "fmap_of_list [(''ROOT'', ''Thing''), (''X2'', ''Cervix Disorder''), (''X1'', ''Disorder'')] :: id_to_label"
  let ?l = "fmap_of_list [(''thing'', ''ROOT''), (''cervix disorder'', ''X2''), (''disorder'', ''X1'')] :: label_to_id"
  let ?g = "fmap_of_list [(''ROOT'', []), (''X2'', [''X1'', ''ROOT'']), (''X1'', [])] :: graph"
  have ev: "load_ontology latin1_strip latin1_lower cervix_rows = Inr (?i, ?l, ?g)" by code_simp
  have f: "find_entity_id latin1_strip latin1_lower ''Cervix Disorder'' ?i ?l = Inr (Some ''X2'')"
    by code_simp
  have "fmlookup ?i ''X2'' \<noteq> None"
    using loaded_label_ids_have_labels[OF ev, THEN conjunct2, rule_format, OF f] .
  then show ?thesis using ev f by (intro conjI)
qed

end
